theory Spec2Isabelle
  imports Main "HOL-Library.Word" "HOL-Library.AList"
begin

section \<open>The reftable stack (stack.go)\<close>

text \<open>
  A shallow embedding of \<^verbatim>\<open>stack.go\<close>. Go's \<^verbatim>\<open>uint64\<close> is \<open>64 word\<close>
  (arithmetic wraps), Go's \<^verbatim>\<open>int\<close> is \<open>int\<close> (the counters and indices of this
  file stay far below \<open>2 ^ 63\<close>), a \<^verbatim>\<open>panic\<close> is the left summand of a sum type, and
  an \<^verbatim>\<open>error\<close> return is the left summand of another.
\<close>

type_synonym u64 = "64 word"

subsection \<open>Size-tiered segment selection\<close>

datatype panic = LogZero | IndexOutOfRange

text \<open>\<^verbatim>\<open>type segment struct { start, end, log int; bytes uint64 }\<close>\<close>

record segment =
  seg_start :: int
  seg_end :: int
  seg_log :: int
  seg_bytes :: u64

definition segment_zero :: segment where
  "segment_zero = \<lparr>seg_start = 0, seg_end = 0, seg_log = 0, seg_bytes = 0\<rparr>"

text \<open>\<^verbatim>\<open>func (st *segment) size() int { return st.end - st.start }\<close>\<close>

definition segment_size :: "segment \<Rightarrow> int" where
  "segment_size st = seg_end st - seg_start st"

text \<open>The loop \<^verbatim>\<open>for sz > 0 { l++; sz /= base }\<close> of \<^verbatim>\<open>log2\<close>, with \<^verbatim>\<open>base = 2\<close>.\<close>

function log2_loop :: "u64 \<Rightarrow> int \<Rightarrow> int" where
  "log2_loop sz l = (if sz > 0 then log2_loop (sz div 2) (l + 1) else l)"
  by pat_completeness auto
termination
proof (relation "measure (\<lambda>(sz, l). unat sz)")
  show "wf (measure (\<lambda>(sz, l). unat sz))" by simp
next
  fix sz :: u64 and l :: int
  assume "0 < sz"
  then have "unat sz \<noteq> 0" by (simp add: unat_eq_0 word_greater_zero_iff)
  then have "unat sz div 2 < unat sz" by simp
  then show "((sz div 2, l + 1), (sz, l)) \<in> measure (\<lambda>(sz, l). unat sz)"
    by (simp add: unat_div)
qed

declare log2_loop.simps [simp del]

text \<open>
  \<^verbatim>\<open>func log2(sz uint64) int\<close>: panics on 0, otherwise counts the halvings and
  returns \<^verbatim>\<open>l - 1\<close>.
\<close>

definition log2 :: "u64 \<Rightarrow> panic + int" where
  "log2 sz = (if sz = 0 then Inl LogZero else Inr (log2_loop sz 0 - 1))"

text \<open>
  \<^verbatim>\<open>sizesToSegments\<close>: the loop over \<^verbatim>\<open>sizes\<close> carries the index \<open>i\<close>, the
  segment \<open>cur\<close> being built and the result so far; after the loop \<open>cur\<close> is
  appended, also when \<^verbatim>\<open>sizes\<close> is empty.
\<close>

fun sizesToSegments_loop ::
  "u64 list \<Rightarrow> int \<Rightarrow> segment \<Rightarrow> segment list \<Rightarrow> panic + segment list" where
  "sizesToSegments_loop [] i cur res = Inr (res @ [cur])"
| "sizesToSegments_loop (sz # rest) i cur res =
     (case log2 sz of
        Inl p \<Rightarrow> Inl p
      | Inr l \<Rightarrow>
          (let flush = (seg_log cur \<noteq> l \<and> seg_bytes cur > 0);
               res' = (if flush then res @ [cur] else res);
               cur' = (if flush then segment_zero\<lparr>seg_start := i\<rparr> else cur)
           in sizesToSegments_loop rest (i + 1)
                (cur'\<lparr>seg_log := l, seg_end := i + 1, seg_bytes := seg_bytes cur' + sz\<rparr>)
                res'))"

definition sizesToSegments :: "u64 list \<Rightarrow> panic + segment list" where
  "sizesToSegments sizes = sizesToSegments_loop sizes 0 segment_zero []"

text \<open>The search for the segment of smallest \<^verbatim>\<open>log\<close> among those of size other than 1.\<close>

fun minSeg_loop :: "segment list \<Rightarrow> segment \<Rightarrow> segment" where
  "minSeg_loop [] minSeg = minSeg"
| "minSeg_loop (st # segs) minSeg =
     (if segment_size st = 1 then minSeg_loop segs minSeg
      else if seg_log st < seg_log minSeg then minSeg_loop segs st
      else minSeg_loop segs minSeg)"

text \<open>
  The left extension \<^verbatim>\<open>for minSeg.start > 0 { ... }\<close>. Reading \<^verbatim>\<open>sizes[prev]\<close>
  outside the slice panics in Go.
\<close>

function extend_left :: "u64 list \<Rightarrow> segment \<Rightarrow> panic + segment" where
  "extend_left sizes minSeg =
     (if seg_start minSeg > 0 then
        (let prev = seg_start minSeg - 1 in
         case log2 (seg_bytes minSeg) of
           Inl p \<Rightarrow> Inl p
         | Inr lb \<Rightarrow>
             (if \<not> prev < int (length sizes) then Inl IndexOutOfRange
              else case log2 (sizes ! nat prev) of
                Inl p \<Rightarrow> Inl p
              | Inr lp \<Rightarrow>
                  (if lb < lp then Inr minSeg
                   else extend_left sizes
                          (minSeg\<lparr>seg_start := prev,
                                  seg_bytes := seg_bytes minSeg + sizes ! nat prev\<rparr>))))
      else Inr minSeg)"
  by pat_completeness auto
termination
  by (relation "measure (\<lambda>(sizes, minSeg). nat (seg_start minSeg))") auto

declare extend_left.simps [simp del]

text \<open>\<^verbatim>\<open>suggestCompactionSegment\<close>: \<open>None\<close> is the \<^verbatim>\<open>nil\<close> pointer.\<close>

definition suggestCompactionSegment :: "u64 list \<Rightarrow> panic + segment option" where
  "suggestCompactionSegment sizes =
     (case sizesToSegments sizes of
        Inl p \<Rightarrow> Inl p
      | Inr segs \<Rightarrow>
          (let minSeg = minSeg_loop segs (segment_zero\<lparr>seg_log := 64\<rparr>) in
           if segment_size minSeg = 0 then Inr None
           else case extend_left sizes minSeg of
                  Inl p \<Rightarrow> Inl p
                | Inr s \<Rightarrow> Inr (Some s)))"

subsection \<open>Errors, records and table files\<close>

text \<open>
  The errors the code tells apart: its own \<^verbatim>\<open>ErrLockFailure\<close>, the two classes
  \<^verbatim>\<open>os.IsNotExist\<close> and \<^verbatim>\<open>os.IsExist\<close> recognise, any other error (tagged), and the
  error \<^verbatim>\<open>reloadOnce\<close> builds with \<^verbatim>\<open>fmt.Errorf("NewReader(%s): %v", name, err)\<close>.
\<close>

datatype error =
    ErrLockFailure
  | ErrNotExist
  | ErrExist
  | ErrOther string
  | ErrNewReader string error

definition IsNotExist :: "error \<Rightarrow> bool" where
  "IsNotExist e = (e = ErrNotExist)"

definition IsExist :: "error \<Rightarrow> bool" where
  "IsExist e = (e = ErrExist)"

text \<open>
  Modelled from the spec: the record kinds are declared outside \<^verbatim>\<open>stack.go\<close>. A
  \<^verbatim>\<open>RefRecord\<close> carries its name, its update index and a value; \<^verbatim>\<open>isDeletion\<close> is the
  predicate "the reference record signals deletion", here: it has no value.
\<close>

record RefRecord =
  RefName :: string
  UpdateIndex :: u64
  Value :: "string option"

definition isDeletion :: "RefRecord \<Rightarrow> bool" where
  "isDeletion rec = (Value rec = None)"

record LogRecord =
  LogRefName :: string
  LogUpdateIndex :: u64
  Message :: string

text \<open>
  Modelled from the spec: the \<^verbatim>\<open>Writer\<close> is declared outside \<^verbatim>\<open>stack.go\<close>. Here it
  is what \<^verbatim>\<open>stack.go\<close> uses of it: the limits \<^verbatim>\<open>SetLimits\<close> stores (\<^verbatim>\<open>add\<close> reads
  \<^verbatim>\<open>wr.minUpdateIndex\<close>), and the records added so far.
\<close>

record Writer =
  minUpdateIndex :: u64
  maxUpdateIndex :: u64
  w_refs :: "RefRecord list"
  w_logs :: "LogRecord list"

text \<open>
  Modelled from the spec: the table format is outside \<^verbatim>\<open>stack.go\<close>. A table file
  holds the update-index range \<open>[min, max]\<close> it covers (the limits of the Writer that
  wrote it), its records, and the byte size the \<^verbatim>\<open>Reader\<close> reports. A file is either
  plain bytes (the manifest, a lock file, a table not yet finished) or a finished table.
\<close>

record table =
  tab_min :: u64
  tab_max :: u64
  tab_refs :: "RefRecord list"
  tab_logs :: "LogRecord list"
  tab_size :: u64

datatype node = Bytes string | Table table

text \<open>
  Modelled from the spec: the \<^verbatim>\<open>Reader\<close> is declared outside \<^verbatim>\<open>stack.go\<close>. An open
  \<^verbatim>\<open>*Reader\<close>: \<open>r_id\<close> is the identity of the object (the pointer), the other
  fields are \<^verbatim>\<open>name\<close>, \<^verbatim>\<open>MinUpdateIndex()\<close>, \<^verbatim>\<open>MaxUpdateIndex()\<close> and \<^verbatim>\<open>size\<close>.
  Whether \<^verbatim>\<open>Close\<close> has been called on the object is kept in the world, by identity, so
  that two slices holding the same pointer see the same object.
\<close>

record Reader =
  r_id :: nat
  r_name :: string
  r_min :: u64
  r_max :: u64
  r_size :: u64

text \<open>The world outside the \<^verbatim>\<open>Stack\<close> value: the file system by path, and the Reader objects.\<close>

record world =
  fs :: "string \<rightharpoonup> node"
  closed :: "nat set"
  nextId :: nat

text \<open>\<^verbatim>\<open>type CompactionStats struct { Bytes uint64; Attempts int; Failures int }\<close>\<close>

record CompactionStats =
  Bytes_stat :: u64
  Attempts :: int
  Failures :: int

text \<open>
  \<^verbatim>\<open>type Stack struct\<close>. \<^verbatim>\<open>cfg\<close> is only forwarded to \<^verbatim>\<open>NewWriter\<close> and is left out;
  \<open>merged\<close> holds the tables the current \<^verbatim>\<open>*Merged\<close> was built over (\<open>None\<close> is \<^verbatim>\<open>nil\<close>).
\<close>

record Stack =
  listFile :: string
  reftableDir :: string
  stack :: "Reader list"
  merged :: "Reader list option"
  Stats :: CompactionStats

text \<open>
  What the code does not decide: which system call fails (by call site), the random part
  of a temporary file's name, how many iterations of the reload loop fit before its
  deadline, what the external Writer rejects and how large the table it writes is, and
  what the external Merged view iterates (\<open>refIter\<close> and \<open>logIter\<close> give, for the
  tables a Merged view is over, the results of the successive \<^verbatim>\<open>NextRef\<close> and
  \<^verbatim>\<open>NextLog\<close> calls).
\<close>

datatype site =
    OpenLock | ReopenLock | RemoveLock | ReadList | ReadListAfter
  | TempFileS | NewWriterS | WriterClose | TabClose | RenameTable
  | WriteLock | CloseLock | RenameLock
  | OpenTable string | NewReaderS string | LockTable string
  | NewMergedS | SeekRefS | SeekLogS

record env =
  fault :: "site \<Rightarrow> error option"
  tmpSuffix :: string
  reloadFuel :: nat
  addRefErr :: "Writer \<Rightarrow> RefRecord \<Rightarrow> error option"
  addLogErr :: "Writer \<Rightarrow> LogRecord \<Rightarrow> error option"
  encodedSize :: "Writer \<Rightarrow> u64"
  refIter :: "Reader list \<Rightarrow> (error + RefRecord) list"
  logIter :: "Reader list \<Rightarrow> (error + LogRecord) list"

subsection \<open>File-system calls\<close>

text \<open>
  \<^verbatim>\<open>filepath.Join(dir, name)\<close> for a clean directory path and a plain file name.
\<close>

definition Join :: "string \<Rightarrow> string \<Rightarrow> string" where
  "Join dir nm = dir @ ''/'' @ nm"

text \<open>\<^verbatim>\<open>os.OpenFile(path, os.O_EXCL|os.O_CREATE|os.O_WRONLY, 0644)\<close>\<close>

definition OpenFile_excl :: "env \<Rightarrow> site \<Rightarrow> string \<Rightarrow> world \<Rightarrow> error + world" where
  "OpenFile_excl E s path w =
     (if fs w path \<noteq> None then Inl ErrExist
      else case fault E s of
             Some e \<Rightarrow> Inl e
           | None \<Rightarrow> Inr (w\<lparr>fs := (fs w)(path \<mapsto> Bytes [])\<rparr>))"

text \<open>\<^verbatim>\<open>os.Remove(path)\<close> with the error ignored, as in the deferred calls.\<close>

definition Remove :: "string \<Rightarrow> world \<Rightarrow> world" where
  "Remove path w = w\<lparr>fs := (fs w)(path := None)\<rparr>"

text \<open>\<^verbatim>\<open>os.Remove(path)\<close> where the caller checks the error.\<close>

definition Remove_checked :: "env \<Rightarrow> site \<Rightarrow> string \<Rightarrow> world \<Rightarrow> error + world" where
  "Remove_checked E s path w =
     (if fs w path = None then Inl ErrNotExist
      else case fault E s of
             Some e \<Rightarrow> Inl e
           | None \<Rightarrow> Inr (Remove path w))"

text \<open>\<^verbatim>\<open>os.Rename(old, new)\<close>: replaces \<open>new\<close>; renaming a file to itself changes nothing.\<close>

definition Rename :: "env \<Rightarrow> site \<Rightarrow> string \<Rightarrow> string \<Rightarrow> world \<Rightarrow> error + world" where
  "Rename E s old new w =
     (if fs w old = None then Inl ErrNotExist
      else case fault E s of
             Some e \<Rightarrow> Inl e
           | None \<Rightarrow>
               (if old = new then Inr w
                else Inr (w\<lparr>fs := (fs w)(new := fs w old, old := None)\<rparr>)))"

text \<open>
  \<^verbatim>\<open>ioutil.TempFile(dir, pre + "*" + suf)\<close>: creates a file that did not exist,
  its name the pattern with the star replaced by a random string, here the environment's.
  Go draws another string when the name exists and gives up with the exists-error after
  many draws; the model gives up at once.
\<close>

definition TempFile ::
  "env \<Rightarrow> string \<Rightarrow> string \<Rightarrow> string \<Rightarrow> world \<Rightarrow> error + (string \<times> world)" where
  "TempFile E dir pre suf w =
     (let path = Join dir (pre @ tmpSuffix E @ suf) in
      if fs w path \<noteq> None then Inl ErrExist
      else case fault E TempFileS of
             Some e \<Rightarrow> Inl e
           | None \<Rightarrow> Inr (path, w\<lparr>fs := (fs w)(path \<mapsto> Bytes [])\<rparr>))"

subsection \<open>Names\<close>

text \<open>\<^verbatim>\<open>fmt.Sprintf("%012x-%012x", min, max)\<close>: lower-case hexadecimal, padded with zeros to 12.\<close>

definition hexdigit :: "nat \<Rightarrow> char" where
  "hexdigit d = ''0123456789abcdef'' ! d"

function hex :: "nat \<Rightarrow> string" where
  "hex n = (if n < 16 then [hexdigit n] else hex (n div 16) @ [hexdigit (n mod 16)])"
  by pat_completeness auto
termination
  by (relation "measure (\<lambda>n. n)") auto

declare hex.simps [simp del]

definition pad12 :: "string \<Rightarrow> string" where
  "pad12 s = replicate (12 - length s) (CHR ''0'') @ s"

definition formatName :: "u64 \<Rightarrow> u64 \<Rightarrow> string" where
  "formatName mn mx = pad12 (hex (unat mn)) @ ''-'' @ pad12 (hex (unat mx))"

text \<open>\<^verbatim>\<open>bytes.Split(c, []byte("\n"))\<close> and \<^verbatim>\<open>strings.Join(names, "\n")\<close>.\<close>

definition newline :: char where
  "newline = CHR 0x0A"

fun Split :: "string \<Rightarrow> string list" where
  "Split [] = [[]]"
| "Split (c # cs) =
     (if c = newline then [] # Split cs
      else (case Split cs of
              [] \<Rightarrow> [[c]]
            | l # ls \<Rightarrow> (c # l) # ls))"

fun JoinLines :: "string list \<Rightarrow> string" where
  "JoinLines [] = []"
| "JoinLines [x] = x"
| "JoinLines (x # y # ys) = x @ [newline] @ JoinLines (y # ys)"

text \<open>
  \<^verbatim>\<open>readNames\<close>: a missing manifest is the empty list and no error; empty lines are
  dropped. Reading a file that is there fails when the environment says so. The bytes
  of a finished table are not modelled: a manifest path that holds one is an error.
\<close>

definition readNames :: "env \<Rightarrow> site \<Rightarrow> Stack \<Rightarrow> world \<Rightarrow> error + string list" where
  "readNames E s st w =
     (case fs w (listFile st) of
        None \<Rightarrow> Inr []
      | Some n \<Rightarrow>
          (case fault E s of
             Some e \<Rightarrow> (if IsNotExist e then Inr [] else Inl e)
           | None \<Rightarrow>
               (case n of
                  Bytes c \<Rightarrow> Inr (filter (\<lambda>l. length l > 0) (Split c))
                | Table t \<Rightarrow> Inl (ErrOther ''manifest is a table''))))"

subsection \<open>Readers and reload\<close>

text \<open>
  Modelled from the spec: \<^verbatim>\<open>NewFileBlockSource(path)\<close> opens the file, and
  \<^verbatim>\<open>NewReader(bs, name)\<close> reads the table's header and allocates the Reader object,
  which reports the table's range and size under the given name.
\<close>

definition NewFileBlockSource :: "env \<Rightarrow> string \<Rightarrow> string \<Rightarrow> world \<Rightarrow> error + node" where
  "NewFileBlockSource E nm path w =
     (case fs w path of
        None \<Rightarrow> Inl ErrNotExist
      | Some n \<Rightarrow> (case fault E (OpenTable nm) of Some e \<Rightarrow> Inl e | None \<Rightarrow> Inr n))"

definition NewReader :: "env \<Rightarrow> node \<Rightarrow> string \<Rightarrow> world \<Rightarrow> error + (Reader \<times> world)" where
  "NewReader E bs nm w =
     (case fault E (NewReaderS nm) of
        Some e \<Rightarrow> Inl e
      | None \<Rightarrow>
          (case bs of
             Bytes c \<Rightarrow> Inl (ErrOther ''not a table'')
           | Table t \<Rightarrow>
               Inr (\<lparr>r_id = nextId w, r_name = nm, r_min = tab_min t, r_max = tab_max t,
                      r_size = tab_size t\<rparr>,
                    w\<lparr>nextId := nextId w + 1\<rparr>)))"

text \<open>\<^verbatim>\<open>r.Close()\<close>\<close>

definition Close_reader :: "Reader \<Rightarrow> world \<Rightarrow> world" where
  "Close_reader r w = w\<lparr>closed := insert (r_id r) (closed w)\<rparr>"

text \<open>
  The map \<^verbatim>\<open>cur\<close> of \<^verbatim>\<open>reloadOnce\<close>, from a name to the open Reader of that name, as an
  association list: \<^verbatim>\<open>cur[r.Name()] = r\<close> is \<open>AList.update\<close>, \<^verbatim>\<open>cur[name]\<close> is
  \<open>map_of\<close>, \<^verbatim>\<open>delete(cur, name)\<close> is \<open>AList.delete\<close>.
\<close>

definition cur_of :: "Reader list \<Rightarrow> (string \<times> Reader) list" where
  "cur_of rs = fold (\<lambda>r cur. AList.update (r_name r) r cur) rs []"

text \<open>
  The loop over \<^verbatim>\<open>names\<close>. On an error it returns the error with \<^verbatim>\<open>newTables\<close> as it
  stands, for the deferred function.
\<close>

fun reloadOnce_loop ::
  "env \<Rightarrow> string \<Rightarrow> string list \<Rightarrow> (string \<times> Reader) list \<Rightarrow> Reader list \<Rightarrow> world \<Rightarrow>
     (error \<times> Reader list \<times> world) + ((string \<times> Reader) list \<times> Reader list \<times> world)" where
  "reloadOnce_loop E dir [] cur newTables w = Inr (cur, newTables, w)"
| "reloadOnce_loop E dir (nm # names) cur newTables w =
     (case map_of cur nm of
        Some rd \<Rightarrow> reloadOnce_loop E dir names (AList.delete nm cur) (newTables @ [rd]) w
      | None \<Rightarrow>
          (case NewFileBlockSource E nm (Join dir nm) w of
             Inl err \<Rightarrow> Inl (err, newTables, w)
           | Inr bs \<Rightarrow>
               (case NewReader E bs nm w of
                  Inl err \<Rightarrow> Inl (ErrNewReader nm err, newTables, w)
                | Inr (rd, w') \<Rightarrow> reloadOnce_loop E dir names cur (newTables @ [rd]) w')))"

text \<open>
  \<^verbatim>\<open>reloadOnce\<close>. The deferred function closes every element of \<^verbatim>\<open>newTables\<close> when the
  function returns with an error; on success \<^verbatim>\<open>newTables\<close> is \<^verbatim>\<open>nil\<close> by then, and the
  Readers left in \<^verbatim>\<open>cur\<close> are closed.
\<close>

definition reloadOnce :: "env \<Rightarrow> string list \<Rightarrow> Stack \<Rightarrow> world \<Rightarrow> error option \<times> Stack \<times> world" where
  "reloadOnce E names st w =
     (case reloadOnce_loop E (reftableDir st) names (cur_of (stack st)) [] w of
        Inl (err, newTables, w') \<Rightarrow> (Some err, st, fold Close_reader newTables w')
      | Inr (cur, newTables, w') \<Rightarrow>
          (None, st\<lparr>stack := newTables\<rparr>, fold Close_reader (map snd cur) w'))"

text \<open>
  The loop of \<^verbatim>\<open>reload\<close>, \<^verbatim>\<open>for time.Now().Before(deadline)\<close>: the first argument is
  the number of iterations that still start before the deadline. The result's first
  component is the error the loop returns with, or \<open>None\<close> when the loop is left (by
  \<^verbatim>\<open>break\<close>, or because the deadline has passed). The loop computes a delay and
  does nothing with it. Other processes are not modelled: between two calls the file
  system changes by this code only.
\<close>

fun reload_loop :: "nat \<Rightarrow> env \<Rightarrow> Stack \<Rightarrow> world \<Rightarrow> error option \<times> Stack \<times> world" where
  "reload_loop 0 E st w = (None, st, w)"
| "reload_loop (Suc n) E st w =
     (case readNames E ReadList st w of
        Inl err \<Rightarrow> (Some err, st, w)
      | Inr names \<Rightarrow>
          (case reloadOnce E names st w of
             (None, st', w') \<Rightarrow> (None, st', w')
           | (Some err, st', w') \<Rightarrow>
               (if \<not> IsNotExist err then (Some err, st', w')
                else case readNames E ReadListAfter st' w' of
                       Inl err2 \<Rightarrow> (Some err2, st', w')
                     | Inr after \<Rightarrow>
                         (if after = names then (Some ErrNotExist, st', w')
                          else reload_loop n E st' w'))))"

definition reload :: "env \<Rightarrow> Stack \<Rightarrow> world \<Rightarrow> error option \<times> Stack \<times> world" where
  "reload E st w =
     (case reload_loop (reloadFuel E) E st w of
        (Some err, st', w') \<Rightarrow> (Some err, st', w')
      | (None, st', w') \<Rightarrow>
          (case fault E NewMergedS of
             Some err \<Rightarrow> (Some err, st', w')
           | None \<Rightarrow> (None, st'\<lparr>merged := Some (stack st')\<rparr>, w')))"

text \<open>\<^verbatim>\<open>NewStack\<close>: \<open>Inl err\<close> is the \<^verbatim>\<open>nil\<close> stack returned with the error.\<close>

definition NewStack :: "env \<Rightarrow> string \<Rightarrow> string \<Rightarrow> world \<Rightarrow> (error + Stack) \<times> world" where
  "NewStack E dir lf w =
     (let st = \<lparr>listFile = lf, reftableDir = dir, stack = [], merged = None,
                 Stats = \<lparr>Bytes_stat = 0, Attempts = 0, Failures = 0\<rparr>\<rparr>
      in case reload E st w of
           (Some err, st', w') \<Rightarrow> (Inl err, w')
         | (None, st', w') \<Rightarrow> (Inr st', w'))"

text \<open>\<^verbatim>\<open>Close\<close>\<close>

definition Close :: "Stack \<Rightarrow> world \<Rightarrow> Stack \<times> world" where
  "Close st w = (st\<lparr>stack := []\<rparr>, fold Close_reader (stack st) w)"

text \<open>\<^verbatim>\<open>UpToDate\<close>\<close>

definition UpToDate :: "env \<Rightarrow> Stack \<Rightarrow> world \<Rightarrow> error + bool" where
  "UpToDate E st w =
     (case readNames E ReadList st w of
        Inl err \<Rightarrow> Inl err
      | Inr names \<Rightarrow>
          (if length names \<noteq> length (stack st) then Inr False
           else Inr (list_all2 (\<lambda>e n. r_name e = n) (stack st) names)))"

text \<open>\<^verbatim>\<open>NextUpdateIndex\<close>\<close>

definition NextUpdateIndex :: "Stack \<Rightarrow> u64" where
  "NextUpdateIndex st =
     (if length (stack st) > 0 then r_max (last (stack st)) + 1 else 1)"

subsection \<open>The Writer\<close>

text \<open>
  Modelled from the spec: \<^verbatim>\<open>NewWriter\<close>, \<^verbatim>\<open>SetLimits\<close>, \<^verbatim>\<open>AddRef\<close>, \<^verbatim>\<open>AddLog\<close> and
  \<^verbatim>\<open>Close\<close> of the external Writer. What it rejects is the environment's; a record it
  accepts is appended. \<^verbatim>\<open>Close\<close> finishes the table in the file the Writer was created
  over: the table covers the Writer's limits.
\<close>

definition NewWriter :: "env \<Rightarrow> error + Writer" where
  "NewWriter E =
     (case fault E NewWriterS of
        Some e \<Rightarrow> Inl e
      | None \<Rightarrow> Inr \<lparr>minUpdateIndex = 0, maxUpdateIndex = 0, w_refs = [], w_logs = []\<rparr>)"

definition SetLimits :: "u64 \<Rightarrow> u64 \<Rightarrow> Writer \<Rightarrow> Writer" where
  "SetLimits mn mx wr = wr\<lparr>minUpdateIndex := mn, maxUpdateIndex := mx\<rparr>"

definition AddRef :: "env \<Rightarrow> Writer \<Rightarrow> RefRecord \<Rightarrow> error + Writer" where
  "AddRef E wr rec =
     (case addRefErr E wr rec of
        Some e \<Rightarrow> Inl e
      | None \<Rightarrow> Inr (wr\<lparr>w_refs := w_refs wr @ [rec]\<rparr>))"

definition AddLog :: "env \<Rightarrow> Writer \<Rightarrow> LogRecord \<Rightarrow> error + Writer" where
  "AddLog E wr rec =
     (case addLogErr E wr rec of
        Some e \<Rightarrow> Inl e
      | None \<Rightarrow> Inr (wr\<lparr>w_logs := w_logs wr @ [rec]\<rparr>))"

definition table_of :: "env \<Rightarrow> Writer \<Rightarrow> table" where
  "table_of E wr =
     \<lparr>tab_min = minUpdateIndex wr, tab_max = maxUpdateIndex wr, tab_refs = w_refs wr,
      tab_logs = w_logs wr, tab_size = encodedSize E wr\<rparr>"

definition Writer_Close :: "env \<Rightarrow> string \<Rightarrow> Writer \<Rightarrow> world \<Rightarrow> error + world" where
  "Writer_Close E path wr w =
     (case fault E WriterClose of
        Some e \<Rightarrow> Inl e
      | None \<Rightarrow> Inr (w\<lparr>fs := (fs w)(path \<mapsto> Table (table_of E wr))\<rparr>))"

subsection \<open>Compaction: writing the merged tables\<close>

text \<open>
  The two loops of \<^verbatim>\<open>writeCompact\<close> over the iterators of the Merged view. An element
  \<open>Inl err\<close> is a call of \<^verbatim>\<open>NextRef\<close> (\<^verbatim>\<open>NextLog\<close>) that returns an error, the end of the
  list is the call that returns \<^verbatim>\<open>ok == false\<close>.
\<close>

fun writeRefs :: "env \<Rightarrow> int \<Rightarrow> (error + RefRecord) list \<Rightarrow> Writer \<Rightarrow> error + Writer" where
  "writeRefs E first [] wr = Inr wr"
| "writeRefs E first (Inl err # it) wr = Inl err"
| "writeRefs E first (Inr rec # it) wr =
     (if first = 0 \<and> isDeletion rec then writeRefs E first it wr
      else case AddRef E wr rec of
             Inl err \<Rightarrow> Inl err
           | Inr wr' \<Rightarrow> writeRefs E first it wr')"

fun writeLogs :: "env \<Rightarrow> (error + LogRecord) list \<Rightarrow> Writer \<Rightarrow> error + Writer" where
  "writeLogs E [] wr = Inr wr"
| "writeLogs E (Inl err # it) wr = Inl err"
| "writeLogs E (Inr rec # it) wr =
     (case AddLog E wr rec of
        Inl err \<Rightarrow> Inl err
      | Inr wr' \<Rightarrow> writeLogs E it wr')"

text \<open>\<^verbatim>\<open>st.stack[i]\<close> is inside the slice.\<close>

definition in_range :: "Stack \<Rightarrow> int \<Rightarrow> bool" where
  "in_range st i = (0 \<le> i \<and> i < int (length (stack st)))"

text \<open>
  \<^verbatim>\<open>writeCompact\<close>. \<^verbatim>\<open>st.stack[first]\<close> and \<^verbatim>\<open>st.stack[last]\<close> are read first, so an
  index outside the slice panics there.
\<close>

definition writeCompact :: "env \<Rightarrow> Writer \<Rightarrow> int \<Rightarrow> int \<Rightarrow> Stack \<Rightarrow> panic + (error + Writer)" where
  "writeCompact E wr first lst st =
     (if \<not> in_range st first \<or> \<not> in_range st lst then Inl IndexOutOfRange
      else
        (let wr1 = SetLimits (r_min (stack st ! nat first)) (r_max (stack st ! nat lst)) wr;
             subtabs = map (\<lambda>i. stack st ! nat i) [first..lst]
         in case fault E NewMergedS of
              Some err \<Rightarrow> Inr (Inl err)
            | None \<Rightarrow>
                (case fault E SeekRefS of
                   Some err \<Rightarrow> Inr (Inl err)
                 | None \<Rightarrow>
                     (case writeRefs E first (refIter E subtabs) wr1 of
                        Inl err \<Rightarrow> Inr (Inl err)
                      | Inr wr2 \<Rightarrow>
                          (case fault E SeekLogS of
                             Some err \<Rightarrow> Inr (Inl err)
                           | None \<Rightarrow> Inr (writeLogs E (logIter E subtabs) wr2))))))"

text \<open>
  \<^verbatim>\<open>compactLocked\<close>: the temporary file is removed by the deferred function unless
  \<^verbatim>\<open>rmName\<close> was cleared, which happens on success only.
\<close>

definition compactLocked ::
  "env \<Rightarrow> int \<Rightarrow> int \<Rightarrow> Stack \<Rightarrow> world \<Rightarrow> panic + ((error + string) \<times> world)" where
  "compactLocked E first lst st w =
     (if \<not> in_range st first \<or> \<not> in_range st lst then Inl IndexOutOfRange
      else
        (let fn = formatName (r_min (stack st ! nat first)) (r_max (stack st ! nat lst))
         in case TempFile E (reftableDir st) (fn @ ''_'') ''.ref'' w of
              Inl err \<Rightarrow> Inr (Inl err, w)
            | Inr (rmName, w1) \<Rightarrow>
                (case NewWriter E of
                   Inl err \<Rightarrow> Inr (Inl err, Remove rmName w1)
                 | Inr wr \<Rightarrow>
                     (case writeCompact E wr first lst st of
                        Inl p \<Rightarrow> Inl p
                      | Inr (Inl err) \<Rightarrow> Inr (Inl err, Remove rmName w1)
                      | Inr (Inr wr') \<Rightarrow>
                          (case Writer_Close E rmName wr' w1 of
                             Inl err \<Rightarrow> Inr (Inl err, Remove rmName w1)
                           | Inr w2 \<Rightarrow>
                               (case fault E TabClose of
                                  Some err \<Rightarrow> Inr (Inl err, Remove rmName w2)
                                | None \<Rightarrow> Inr (Inr rmName, w2)))))))"

subsection \<open>Transactional add\<close>

text \<open>
  \<^verbatim>\<open>add\<close> from \<^verbatim>\<open>NewWriter\<close> on, once the temporary file \<open>tab\<close> exists. The result
  carries the value of the variable \<^verbatim>\<open>lockFile\<close> at the return (it is cleared after
  the manifest has been replaced), for the deferred function of \<^verbatim>\<open>add\<close>.
  \<^verbatim>\<open>f.Write\<close> writes through the handle of the lock file, which is still at its path.
\<close>

definition add_table ::
  "env \<Rightarrow> (Writer \<Rightarrow> error + Writer) \<Rightarrow> Stack \<Rightarrow> string \<Rightarrow> string list \<Rightarrow> u64 \<Rightarrow> string \<Rightarrow>
     string \<Rightarrow> world \<Rightarrow> error option \<times> string \<times> Stack \<times> world" where
  "add_table E write st lockFile names next fn tab w =
     (case NewWriter E of
        Inl err \<Rightarrow> (Some err, lockFile, st, w)
      | Inr wr \<Rightarrow>
     (case write wr of
        Inl err \<Rightarrow> (Some err, lockFile, st, w)
      | Inr wr1 \<Rightarrow>
     (case Writer_Close E tab wr1 w of
        Inl err \<Rightarrow> (Some err, lockFile, st, w)
      | Inr w1 \<Rightarrow>
     (case fault E TabClose of
        Some err \<Rightarrow> (Some err, lockFile, st, w1)
      | None \<Rightarrow>
     (if minUpdateIndex wr1 < next then (Some ErrLockFailure, lockFile, st, w1)
      else
        (let dest = fn @ ''.ref'';
             names' = names @ [dest];
             destPath = Join (reftableDir st) dest
         in
     (case Rename E RenameTable tab destPath w1 of
        Inl err \<Rightarrow> (Some err, lockFile, st, w1)
      | Inr w2 \<Rightarrow>
     (case fault E WriteLock of
        Some err \<Rightarrow> (Some err, lockFile, st, Remove destPath w2)
      | None \<Rightarrow>
        (let w3 = w2\<lparr>fs := (fs w2)(lockFile \<mapsto> Bytes (JoinLines names'))\<rparr> in
     (case fault E CloseLock of
        Some err \<Rightarrow> (Some err, lockFile, st, Remove destPath w3)
      | None \<Rightarrow>
     (case Rename E RenameLock lockFile (listFile st) w3 of
        Inl err \<Rightarrow> (Some err, lockFile, st, Remove destPath w3)
      | Inr w4 \<Rightarrow>
     (case reload E st w4 of
        (err, st', w5) \<Rightarrow> (err, [], st', w5)))))))))))))"

text \<open>
  \<^verbatim>\<open>add\<close>. Two deferred functions touch the file system when it returns, the last
  registered first: \<^verbatim>\<open>os.Remove(f.Name())\<close>, registered once the temporary file exists,
  where \<^verbatim>\<open>f\<close> is the lock file; and \<^verbatim>\<open>os.Remove(lockFile)\<close> unless \<^verbatim>\<open>lockFile\<close> was
  cleared.
\<close>

definition add ::
  "env \<Rightarrow> (Writer \<Rightarrow> error + Writer) \<Rightarrow> Stack \<Rightarrow> world \<Rightarrow> error option \<times> Stack \<times> world" where
  "add E write st w =
     (let lockFile = listFile st @ ''.lock'' in
      case OpenFile_excl E OpenLock lockFile w of
        Inl err \<Rightarrow> (if IsExist err then (Some ErrLockFailure, st, w) else (Some err, st, w))
      | Inr w1 \<Rightarrow>
          (case UpToDate E st w1 of
             Inl err \<Rightarrow> (Some err, st, Remove lockFile w1)
           | Inr ok \<Rightarrow>
               (if \<not> ok then (Some ErrLockFailure, st, Remove lockFile w1)
                else
                  (let names = map r_name (stack st);
                       next = NextUpdateIndex st;
                       fn = formatName next next
                   in case TempFile E (reftableDir st) fn ''.ref'' w1 of
                        Inl err \<Rightarrow> (Some err, st, Remove lockFile w1)
                      | Inr (tab, w2) \<Rightarrow>
                          (case add_table E write st lockFile names next fn tab w2 of
                             (err, lockFile', st', w3) \<Rightarrow>
                               (let w4 = Remove lockFile w3
                                in (err, st', if lockFile' \<noteq> [] then Remove lockFile' w4 else w4)))))))"

subsection \<open>Range compaction\<close>

text \<open>
  The loop of \<^verbatim>\<open>compactRange\<close> that takes the per-table locks, for \<open>i\<close> from
  \<^verbatim>\<open>first\<close> to \<^verbatim>\<open>last\<close>. It ends in a panic (\<^verbatim>\<open>st.stack[i]\<close> outside the slice), in a
  return (with \<open>None\<close> when the lock file exists, with the error otherwise), or with the
  locks taken and the tables to delete on success.
\<close>

datatype lock_result =
    LockPanic
  | LockFail "error option" "string list" world
  | LockOk "string list" "string list" world

fun lockSubtables ::
  "env \<Rightarrow> Stack \<Rightarrow> int list \<Rightarrow> string list \<Rightarrow> string list \<Rightarrow> world \<Rightarrow> lock_result" where
  "lockSubtables E st [] subtableLocks deleteOnSuccess w = LockOk subtableLocks deleteOnSuccess w"
| "lockSubtables E st (i # is) subtableLocks deleteOnSuccess w =
     (if \<not> in_range st i then LockPanic
      else
        (let subtab = Join (reftableDir st) (r_name (stack st ! nat i));
             subtabLock = subtab @ ''.lock''
         in case OpenFile_excl E (LockTable (r_name (stack st ! nat i))) subtabLock w of
              Inl err \<Rightarrow> LockFail (if IsExist err then None else Some err) subtableLocks w
            | Inr w' \<Rightarrow>
                lockSubtables E st is (subtableLocks @ [subtabLock])
                  (deleteOnSuccess @ [subtab]) w'))"

text \<open>
  \<^verbatim>\<open>compactRange\<close> from the release of the manifest lock on (\<^verbatim>\<open>os.Remove(lockFileName)\<close>)
  to the end. The result carries the value of \<^verbatim>\<open>lockFileName\<close> at the return. After a
  failing \<^verbatim>\<open>lockFile.Close()\<close> the new table is removed and the function goes on: there
  is no \<^verbatim>\<open>return\<close> in that branch.
\<close>

definition compactRange_merge ::
  "env \<Rightarrow> int \<Rightarrow> int \<Rightarrow> Stack \<Rightarrow> string \<Rightarrow> string list \<Rightarrow> world \<Rightarrow>
     panic + (bool \<times> error option \<times> string \<times> Stack \<times> world)" where
  "compactRange_merge E first lst st lockFileName deleteOnSuccess w =
     (case Remove_checked E RemoveLock lockFileName w of
        Inl err \<Rightarrow> Inr (False, Some err, lockFileName, st, w)
      | Inr w1 \<Rightarrow>
     (case compactLocked E first lst st w1 of
        Inl p \<Rightarrow> Inl p
      | Inr (Inl err, w2) \<Rightarrow> Inr (False, Some err, [], st, w2)
      | Inr (Inr tmpTable, w2) \<Rightarrow>
        (let lockFileName = listFile st @ ''.lock'' in
     (case OpenFile_excl E ReopenLock lockFileName w2 of
        Inl err \<Rightarrow> Inr (False, Some err, lockFileName, st, w2)
      | Inr w3 \<Rightarrow>
        (let fn = formatName (r_min (stack st ! nat first)) (r_max (stack st ! nat lst)) @ ''.ref'';
             destTable = Join (reftableDir st) fn
         in
     (case Rename E RenameTable tmpTable destTable w3 of
        Inl err \<Rightarrow> Inr (False, Some err, lockFileName, st, w3)
      | Inr w4 \<Rightarrow>
        (let names = map r_name (take (nat first) (stack st)) @ [fn]
                     @ map r_name (drop (nat (lst + 1)) (stack st))
         in
     (case fault E WriteLock of
        Some err \<Rightarrow> Inr (False, Some err, lockFileName, st, Remove destTable w4)
      | None \<Rightarrow>
        (let w5 = w4\<lparr>fs := (fs w4)(lockFileName \<mapsto> Bytes (JoinLines names))\<rparr>;
             w6 = (case fault E CloseLock of
                     Some err \<Rightarrow> Remove destTable w5
                   | None \<Rightarrow> w5)
         in
     (case Rename E RenameLock lockFileName (listFile st) w6 of
        Inl err \<Rightarrow> Inr (False, Some err, lockFileName, st, Remove destTable w6)
      | Inr w7 \<Rightarrow>
     (case reload E st (fold Remove deleteOnSuccess w7) of
        (err, st', w8) \<Rightarrow> Inr (True, err, [], st', w8))))))))))))"

text \<open>
  \<^verbatim>\<open>compactRange\<close> once the manifest lock has been tried: the up-to-date check, the
  per-table locks, and the deferred removal of those locks.
\<close>

definition compactRange_locked ::
  "env \<Rightarrow> int \<Rightarrow> int \<Rightarrow> Stack \<Rightarrow> string \<Rightarrow> world \<Rightarrow>
     panic + (bool \<times> error option \<times> string \<times> Stack \<times> world)" where
  "compactRange_locked E first lst st lockFileName w =
     (case UpToDate E st w of
        Inl err \<Rightarrow> Inr (False, Some err, lockFileName, st, w)
      | Inr ok \<Rightarrow>
          (if \<not> ok then Inr (False, None, lockFileName, st, w)
           else case lockSubtables E st [first..lst] [] [] w of
                  LockPanic \<Rightarrow> Inl IndexOutOfRange
                | LockFail err subtableLocks w1 \<Rightarrow>
                    Inr (False, err, lockFileName, st, fold Remove subtableLocks w1)
                | LockOk subtableLocks deleteOnSuccess w1 \<Rightarrow>
                    (case compactRange_merge E first lst st lockFileName deleteOnSuccess w1 of
                       Inl p \<Rightarrow> Inl p
                     | Inr (ok', err, lockFileName', st', w2) \<Rightarrow>
                         Inr (ok', err, lockFileName', st', fold Remove subtableLocks w2))))"

text \<open>
  \<^verbatim>\<open>compactRange\<close>. Only \<^verbatim>\<open>os.IsExist(err)\<close> is checked after the first
  \<^verbatim>\<open>os.OpenFile\<close>: on another error the function goes on without the lock file. The
  deferred function removes \<^verbatim>\<open>lockFileName\<close> unless it was cleared.
\<close>

definition compactRange ::
  "env \<Rightarrow> int \<Rightarrow> int \<Rightarrow> Stack \<Rightarrow> world \<Rightarrow> panic + (bool \<times> error option \<times> Stack \<times> world)" where
  "compactRange E first lst st w =
     (if first \<ge> lst then Inr (True, None, st, w)
      else
        (let st1 = st\<lparr>Stats := (Stats st)\<lparr>Attempts := Attempts (Stats st) + 1\<rparr>\<rparr>;
             lockFileName = listFile st @ ''.lock''
         in case OpenFile_excl E OpenLock lockFileName w of
              Inl err \<Rightarrow>
                (if IsExist err then Inr (False, None, st1, w)
                 else case compactRange_locked E first lst st1 lockFileName w of
                        Inl p \<Rightarrow> Inl p
                      | Inr (ok, err', lockFileName', st', w') \<Rightarrow>
                          Inr (ok, err', st',
                               if lockFileName' \<noteq> [] then Remove lockFileName' w' else w'))
            | Inr w1 \<Rightarrow>
                (case compactRange_locked E first lst st1 lockFileName w1 of
                   Inl p \<Rightarrow> Inl p
                 | Inr (ok, err', lockFileName', st', w') \<Rightarrow>
                     Inr (ok, err', st',
                          if lockFileName' \<noteq> [] then Remove lockFileName' w' else w'))))"

text \<open>\<^verbatim>\<open>compactRangeStats\<close>\<close>

definition compactRangeStats ::
  "env \<Rightarrow> int \<Rightarrow> int \<Rightarrow> Stack \<Rightarrow> world \<Rightarrow> panic + (bool \<times> error option \<times> Stack \<times> world)" where
  "compactRangeStats E first lst st w =
     (case compactRange E first lst st w of
        Inl p \<Rightarrow> Inl p
      | Inr (ok, err, st', w') \<Rightarrow>
          Inr (ok, err,
               if \<not> ok then st'\<lparr>Stats := (Stats st')\<lparr>Failures := Failures (Stats st') + 1\<rparr>\<rparr>
               else st',
               w'))"

subsection \<open>AutoCompact, Add, CompactAll\<close>

text \<open>\<^verbatim>\<open>tableSizesForCompaction\<close>: \<^verbatim>\<open>t.size-91\<close> in \<^verbatim>\<open>uint64\<close>.\<close>

definition tableSizesForCompaction :: "Stack \<Rightarrow> u64 list" where
  "tableSizesForCompaction st = map (\<lambda>t. r_size t - 91) (stack st)"

definition AutoCompact :: "env \<Rightarrow> Stack \<Rightarrow> world \<Rightarrow> panic + (error option \<times> Stack \<times> world)" where
  "AutoCompact E st w =
     (let sizes = tableSizesForCompaction st in
      case suggestCompactionSegment sizes of
        Inl p \<Rightarrow> Inl p
      | Inr None \<Rightarrow> Inr (None, st, w)
      | Inr (Some seg) \<Rightarrow>
          (case compactRangeStats E (seg_start seg) (seg_end seg - 1) st w of
             Inl p \<Rightarrow> Inl p
           | Inr (ok, err, st', w') \<Rightarrow> Inr (err, st', w')))"

text \<open>\<^verbatim>\<open>Add\<close>: after a lock failure the stack is reloaded and the reload's own error dropped.\<close>

definition Add ::
  "env \<Rightarrow> (Writer \<Rightarrow> error + Writer) \<Rightarrow> Stack \<Rightarrow> world \<Rightarrow>
     panic + (error option \<times> Stack \<times> world)" where
  "Add E write st w =
     (case add E write st w of
        (Some err, st', w') \<Rightarrow>
          (if err = ErrLockFailure
           then (case reload E st' w' of (err', st'', w'') \<Rightarrow> Inr (Some err, st'', w''))
           else Inr (Some err, st', w'))
      | (None, st', w') \<Rightarrow> AutoCompact E st' w')"

text \<open>\<^verbatim>\<open>CompactAll\<close>\<close>

definition CompactAll :: "env \<Rightarrow> Stack \<Rightarrow> world \<Rightarrow> panic + (error option \<times> Stack \<times> world)" where
  "CompactAll E st w =
     (case compactRange E 0 (int (length (stack st)) - 1) st w of
        Inl p \<Rightarrow> Inl p
      | Inr (ok, err, st', w') \<Rightarrow> Inr (err, st', w'))"

subsection \<open>The spec's logarithm\<close>

text \<open>
  The spec's words for \<^verbatim>\<open>log2\<close>: "the number of times \<open>s\<close> can be integer-divided by 2
  before reaching 0 -- equivalently, the bit length of \<open>s\<close>". This definition follows
  the spec, not the code; it is compared with the code's \<open>log2\<close> below.
\<close>

fun spec_log2 :: "nat \<Rightarrow> nat" where
  "spec_log2 n = (if n = 0 then 0 else Suc (spec_log2 (n div 2)))"

declare spec_log2.simps [simp del]

subsection \<open>Concrete inputs\<close>

text \<open>
  An environment in which nothing fails: no system call returns an error, the Writer
  accepts every record and writes tables of 300 bytes, the reload loop gets one iteration
  before its deadline, and the Merged view iterates nothing.
\<close>

definition env_ok :: env where
  "env_ok = \<lparr>fault = (\<lambda>s. None), tmpSuffix = ''123456'', reloadFuel = 1,
              addRefErr = (\<lambda>wr rec. None), addLogErr = (\<lambda>wr rec. None),
              encodedSize = (\<lambda>wr. 300), refIter = (\<lambda>tabs. []), logIter = (\<lambda>tabs. [])\<rparr>"

text \<open>An empty file system, and the stack \<^verbatim>\<open>NewStack\<close> builds before its first reload.\<close>

definition fresh_world :: world where
  "fresh_world = \<lparr>fs = Map.empty, closed = {}, nextId = 0\<rparr>"

definition new_stack :: Stack where
  "new_stack = \<lparr>listFile = ''tables.list'', reftableDir = ''reftable'', stack = [],
                 merged = None, Stats = \<lparr>Bytes_stat = 0, Attempts = 0, Failures = 0\<rparr>\<rparr>"

text \<open>
  Three tables as three \<^verbatim>\<open>Add\<close>s leave them, and a Merged view over them whose reference
  iterator yields the deletion of \<^verbatim>\<open>refs/heads/main\<close> and the value of
  \<^verbatim>\<open>refs/heads/topic\<close>, and whose log iterator yields one entry.
\<close>

definition reader_at :: "nat \<Rightarrow> u64 \<Rightarrow> u64 \<Rightarrow> Reader" where
  "reader_at n i sz = \<lparr>r_id = n, r_name = formatName i i @ ''.ref'', r_min = i, r_max = i,
                        r_size = sz\<rparr>"

definition three_tables :: Stack where
  "three_tables = new_stack\<lparr>stack := [reader_at 0 1 300, reader_at 1 2 300, reader_at 2 3 300]\<rparr>"

definition rec_main_deleted :: RefRecord where
  "rec_main_deleted = \<lparr>RefName = ''refs/heads/main'', UpdateIndex = 2, Value = None\<rparr>"

definition rec_topic :: RefRecord where
  "rec_topic = \<lparr>RefName = ''refs/heads/topic'', UpdateIndex = 3, Value = Some ''v2''\<rparr>"

definition log_main :: LogRecord where
  "log_main = \<lparr>LogRefName = ''refs/heads/main'', LogUpdateIndex = 2, Message = ''deleted''\<rparr>"

definition env_merge :: env where
  "env_merge = env_ok\<lparr>refIter := (\<lambda>tabs. [Inr rec_main_deleted, Inr rec_topic]),
                       logIter := (\<lambda>tabs. [Inr log_main])\<rparr>"

definition wr_new :: Writer where
  "wr_new = \<lparr>minUpdateIndex = 0, maxUpdateIndex = 0, w_refs = [], w_logs = []\<rparr>"

text \<open>Stacks of one table: of 91 bytes, of 90 bytes, of 300 bytes.\<close>

definition one_table :: "u64 \<Rightarrow> Stack" where
  "one_table sz = new_stack\<lparr>stack := [reader_at 0 1 sz]\<rparr>"

subsection \<open>Names and update-index ranges\<close>

text \<open>
  The two numbers in a table's name, read back from the name: the value of the
  hexadecimal digits before the dash, and of those between the dash and the dot.
\<close>

definition hexdigit_val :: "char \<Rightarrow> nat" where
  "hexdigit_val c = length (takeWhile (\<lambda>x. x \<noteq> c) ''0123456789abcdef'')"

definition hexval :: "string \<Rightarrow> nat" where
  "hexval s = foldl (\<lambda>acc c. 16 * acc + hexdigit_val c) 0 s"

definition name_min :: "string \<Rightarrow> u64" where
  "name_min nm = of_nat (hexval (takeWhile (\<lambda>c. c \<noteq> CHR ''-'') nm))"

definition name_max :: "string \<Rightarrow> u64" where
  "name_max nm =
     of_nat (hexval (takeWhile (\<lambda>c. c \<noteq> CHR ''.'') (drop 1 (dropWhile (\<lambda>c. c \<noteq> CHR ''-'') nm))))"

text \<open>
  The invariant of the stack that the proofs below carry. A reader is named
  \<open>formatName a b @ ''.ref''\<close> with \<open>a\<close> at most its minimum update index and \<open>b\<close> at
  most its maximum, and its range is not empty; and in the stack every table's name starts
  above the maximum of every table before it.
\<close>

definition reader_ok :: "Reader \<Rightarrow> bool" where
  "reader_ok r =
     (r_name r = formatName (name_min (r_name r)) (name_max (r_name r)) @ ''.ref'' \<and>
      name_min (r_name r) \<le> r_min r \<and> r_min r \<le> r_max r \<and> name_max (r_name r) \<le> r_max r)"

definition stack_ok :: "Reader list \<Rightarrow> bool" where
  "stack_ok rs =
     ((\<forall>r\<in>set rs. reader_ok r) \<and> sorted_wrt (\<lambda>r s. r_max r < name_min (r_name s)) rs)"

text \<open>\<open>opened f dir n r\<close>: the Reader \<open>r\<close> is what opening the table file \<open>dir/n\<close> gives.\<close>

definition opened :: "(string \<rightharpoonup> node) \<Rightarrow> string \<Rightarrow> string \<Rightarrow> Reader \<Rightarrow> bool" where
  "opened f dir n r =
     (\<exists>t. f (Join dir n) = Some (Table t) \<and> r_name r = n \<and> r_min r = tab_min t \<and>
          r_max r = tab_max t \<and> r_size r = tab_size t)"

text \<open>
  The stack states reached from a stack that \<^verbatim>\<open>NewStack\<close> returns, over any directory
  whose tables it opens as a stack with the invariant above (the empty stack has it), by
  \<^verbatim>\<open>Add\<close>s and compactions that return no error. An \<^verbatim>\<open>Add\<close> counts only when
  \<^verbatim>\<open>NextUpdateIndex\<close> has not wrapped around to 0 and the Writer's range, as the write
  callback leaves it, has its minimum at most its maximum.
\<close>

inductive reachable :: "Stack \<Rightarrow> world \<Rightarrow> bool" where
  reach_NewStack:
    "NewStack E dir lf w = (Inr st, w') \<Longrightarrow> stack_ok (stack st) \<Longrightarrow> reachable st w'"
| reach_Add:
    "reachable st w \<Longrightarrow> Add E write st w = Inr (None, st', w') \<Longrightarrow>
     NextUpdateIndex st \<noteq> 0 \<Longrightarrow>
     (\<forall>wr0 wr. NewWriter E = Inr wr0 \<longrightarrow> write wr0 = Inr wr \<longrightarrow>
        minUpdateIndex wr \<le> maxUpdateIndex wr) \<Longrightarrow>
     reachable st' w'"
| reach_AutoCompact:
    "reachable st w \<Longrightarrow> AutoCompact E st w = Inr (None, st', w') \<Longrightarrow> reachable st' w'"
| reach_CompactAll:
    "reachable st w \<Longrightarrow> CompactAll E st w = Inr (None, st', w') \<Longrightarrow> reachable st' w'"
| reach_compactRange:
    "reachable st w \<Longrightarrow> compactRange E first lst st w = Inr (ok, None, st', w') \<Longrightarrow>
     reachable st' w'"

subsection \<open>Concrete runs\<close>

text \<open>
  Write callbacks: one that covers a given range and adds no record, one that aborts.
\<close>

definition write_limits :: "u64 \<Rightarrow> u64 \<Rightarrow> Writer \<Rightarrow> error + Writer" where
  "write_limits mn mx wr = Inr (SetLimits mn mx wr)"

definition write_abort :: "Writer \<Rightarrow> error + Writer" where
  "write_abort wr = Inl (ErrOther ''abort'')"

text \<open>
  As \<open>env_ok\<close>, but the table written for the range starting at 1 has 300 bytes and
  every other table 3000 bytes, so that two tables of different ranges are in different
  size tiers.
\<close>

definition env_tiers :: env where
  "env_tiers = env_ok\<lparr>encodedSize := (\<lambda>wr. if minUpdateIndex wr = 1 then 300 else 3000)\<rparr>"

text \<open>
  \<^verbatim>\<open>NewStack("reftable", "tables.list", cfg)\<close> in an empty file system, and the stack and
  world it leaves.
\<close>

definition opened_stack :: Stack where
  "opened_stack = projr (fst (NewStack env_tiers ''reftable'' ''tables.list'' fresh_world))"

definition opened_world :: world where
  "opened_world = snd (NewStack env_tiers ''reftable'' ''tables.list'' fresh_world)"

text \<open>The outcome of \<^verbatim>\<open>Add\<close>, \<^verbatim>\<open>AutoCompact\<close> or \<^verbatim>\<open>CompactAll\<close>, and its parts.\<close>

type_synonym outcome = "panic + (error option \<times> Stack \<times> world)"

definition st_of :: "outcome \<Rightarrow> Stack" where
  "st_of r = fst (snd (projr r))"

definition world_of :: "outcome \<Rightarrow> world" where
  "world_of r = snd (snd (projr r))"

definition succeeded :: "outcome \<Rightarrow> bool" where
  "succeeded r = (case r of Inl p \<Rightarrow> False | Inr (err, st, w) \<Rightarrow> err = None)"

text \<open>The first \<^verbatim>\<open>Add\<close> on the opened stack, and an \<^verbatim>\<open>Add\<close> in the state an earlier one left.\<close>

definition first_Add :: "(Writer \<Rightarrow> error + Writer) \<Rightarrow> outcome" where
  "first_Add wcb = Add env_tiers wcb opened_stack opened_world"

definition then_Add :: "outcome \<Rightarrow> (Writer \<Rightarrow> error + Writer) \<Rightarrow> outcome" where
  "then_Add r wcb = Add env_tiers wcb (st_of r) (world_of r)"

text \<open>Two \<^verbatim>\<open>Add\<close>s at the update indices 1 and 2.\<close>

definition run_1 :: outcome where
  "run_1 = first_Add (write_limits 1 1)"

definition run_1_2 :: outcome where
  "run_1_2 = then_Add run_1 (write_limits 2 2)"

text \<open>
  An \<^verbatim>\<open>Add\<close> whose Writer covers \<open>[1, 2^64 - 1]\<close>, then one whose Writer covers
  \<open>[0, 0]\<close>.
\<close>

definition run_wrap_1 :: outcome where
  "run_wrap_1 = first_Add (write_limits 1 (- 1))"

definition run_wrap_2 :: outcome where
  "run_wrap_2 = then_Add run_wrap_1 (write_limits 0 0)"

text \<open>
  An \<^verbatim>\<open>Add\<close> whose Writer's limits are 5 and 0 (minimum above maximum), then
  \<^verbatim>\<open>Add\<close>s covering \<open>[1, 7]\<close> and \<open>[8, 8]\<close>.
\<close>

definition run_crossed_1 :: outcome where
  "run_crossed_1 = first_Add (write_limits 5 0)"

definition run_crossed_2 :: outcome where
  "run_crossed_2 = then_Add run_crossed_1 (write_limits 1 7)"

definition run_crossed_3 :: outcome where
  "run_crossed_3 = then_Add run_crossed_2 (write_limits 8 8)"

definition ranges :: "Stack \<Rightarrow> (u64 \<times> u64) list" where
  "ranges st = map (\<lambda>r. (r_min r, r_max r)) (stack st)"

text \<open>
  \<^verbatim>\<open>NewStack\<close> once more, over the directory the two \<^verbatim>\<open>Add\<close>s of \<open>run_1_2\<close> left, and
  an \<^verbatim>\<open>Add\<close> at the update index 3 on the stack it returns.
\<close>

definition reopened_stack :: Stack where
  "reopened_stack =
     projr (fst (NewStack env_tiers ''reftable'' ''tables.list'' (world_of run_1_2)))"

definition reopened_world :: world where
  "reopened_world = snd (NewStack env_tiers ''reftable'' ''tables.list'' (world_of run_1_2))"

definition run_reopened_3 :: outcome where
  "run_reopened_3 = Add env_tiers (write_limits 3 3) reopened_stack reopened_world"

text \<open>
  Directories that this code did not write. In the first the manifest lists the table of
  range \<open>[2, 2]\<close> before the table of range \<open>[1, 1]\<close>. In the second the one table is
  named \<^verbatim>\<open>000000000002-000000000002.ref\<close> and covers \<open>[1, 1]\<close>; on the stack opened
  over it come \<^verbatim>\<open>Add\<close>s covering \<open>[2, 2]\<close> and \<open>[3, 3]\<close>.
\<close>

definition table_at :: "u64 \<Rightarrow> u64 \<Rightarrow> table" where
  "table_at mn mx = \<lparr>tab_min = mn, tab_max = mx, tab_refs = [], tab_logs = [], tab_size = 300\<rparr>"

definition dir_unordered :: world where
  "dir_unordered = fresh_world\<lparr>fs :=
     [''tables.list'' \<mapsto> Bytes (JoinLines [formatName 2 2 @ ''.ref'', formatName 1 1 @ ''.ref'']),
      Join ''reftable'' (formatName 2 2 @ ''.ref'') \<mapsto> Table (table_at 2 2),
      Join ''reftable'' (formatName 1 1 @ ''.ref'') \<mapsto> Table (table_at 1 1)]\<rparr>"

definition dir_misnamed :: world where
  "dir_misnamed = fresh_world\<lparr>fs :=
     [''tables.list'' \<mapsto> Bytes (formatName 2 2 @ ''.ref''),
      Join ''reftable'' (formatName 2 2 @ ''.ref'') \<mapsto> Table (table_at 1 1)]\<rparr>"

definition open_dir :: "world \<Rightarrow> outcome" where
  "open_dir w =
     (case NewStack env_tiers ''reftable'' ''tables.list'' w of
        (Inl err, w') \<Rightarrow> Inr (Some err, new_stack, w')
      | (Inr st, w') \<Rightarrow> Inr (None, st, w'))"

definition run_misnamed_1 :: outcome where
  "run_misnamed_1 = then_Add (open_dir dir_misnamed) (write_limits 2 2)"

definition run_misnamed_2 :: outcome where
  "run_misnamed_2 = then_Add run_misnamed_1 (write_limits 3 3)"

text \<open>\<^verbatim>\<open>add\<close> on the opened stack with a Writer that covers \<open>[1, 2]\<close>.\<close>

definition run_add_1_2 :: "error option \<times> Stack \<times> world" where
  "run_add_1_2 = add env_tiers (write_limits 1 2) opened_stack opened_world"

text \<open>\<^verbatim>\<open>Add\<close> on the opened stack with a write callback that returns an error.\<close>

definition run_abort :: outcome where
  "run_abort = first_Add write_abort"

text \<open>
  After the two \<^verbatim>\<open>Add\<close>s of \<open>run_1_2\<close>: \<^verbatim>\<open>compactRange(0, 1)\<close> where
  \<^verbatim>\<open>lockFile.Close()\<close> fails and every other call succeeds.
\<close>

definition env_close_fails :: env where
  "env_close_fails =
     env_tiers\<lparr>fault := (\<lambda>s. if s = CloseLock then Some (ErrOther ''close'') else None)\<rparr>"

definition run_compact_close_fails :: "panic + (bool \<times> error option \<times> Stack \<times> world)" where
  "run_compact_close_fails =
     compactRange env_close_fails 0 1 (st_of run_1_2) (world_of run_1_2)"

text \<open>
  After the two \<^verbatim>\<open>Add\<close>s of \<open>run_1_2\<close>: a single reload attempt for the two names of
  the stack followed by the name of a table that is not on disk.
\<close>

definition run_reload_missing :: "error option \<times> Stack \<times> world" where
  "run_reload_missing =
     reloadOnce env_tiers
       (map r_name (stack (st_of run_1_2)) @ [''000000000003-000000000003.ref''])
       (st_of run_1_2) (world_of run_1_2)"

section \<open>Properties\<close>

subsection \<open>Segment selection on the spec's examples\<close>

text \<open>
  C6. For sizes \<open>[1024, 1024, 1024, 2^20, 2^20]\<close> the suggested segment is \<open>[0,3)\<close>; for
  \<open>[2^20, 1024, 1024]\<close> it is \<open>[1,3)\<close>, not extended to the left, since
  \<open>log2 2048 = 11\<close> is below \<open>log2 (2^20) = 20\<close>; for \<open>[2^20]\<close> no segment is suggested.
\<close>

theorem suggestCompactionSegment_examples:
  "suggestCompactionSegment [1024, 1024, 1024, 2 ^ 20, 2 ^ 20]
     = Inr (Some \<lparr>seg_start = 0, seg_end = 3, seg_log = 10, seg_bytes = 3072\<rparr>) \<and>
   suggestCompactionSegment [2 ^ 20, 1024, 1024]
     = Inr (Some \<lparr>seg_start = 1, seg_end = 3, seg_log = 10, seg_bytes = 2048\<rparr>) \<and>
   log2 2048 = Inr 11 \<and> log2 (2 ^ 20) = Inr 20 \<and>
   suggestCompactionSegment [2 ^ 20] = Inr None"
  by code_simp

subsection \<open>The logarithm\<close>

lemma log2_loop_spec: "log2_loop sz l = l + int (spec_log2 (unat sz))"
proof (induction sz l rule: log2_loop.induct)
  case (1 sz l)
  show ?case
  proof (cases "sz > 0")
    case True
    then have nz: "unat sz \<noteq> 0" by (simp add: unat_eq_0 word_greater_zero_iff)
    have "log2_loop sz l = log2_loop (sz div 2) (l + 1)"
      using True by (subst log2_loop.simps) simp
    also have "\<dots> = l + 1 + int (spec_log2 (unat (sz div 2)))"
      using 1 True by simp
    also have "unat (sz div 2) = unat sz div 2" by (simp add: unat_div)
    finally have step: "log2_loop sz l = l + 1 + int (spec_log2 (unat sz div 2))" .
    have "spec_log2 (unat sz) = Suc (spec_log2 (unat sz div 2))"
      using nz by (subst spec_log2.simps) simp
    with step show ?thesis by simp
  next
    case False
    then have z: "sz = 0" by (simp add: word_greater_zero_iff)
    show ?thesis using z by (subst log2_loop.simps, subst spec_log2.simps) simp
  qed
qed

lemma spec_log2_bounds: "0 < n \<Longrightarrow> 2 ^ (spec_log2 n - 1) \<le> n \<and> n < 2 ^ spec_log2 n"
proof (induction n rule: spec_log2.induct)
  case (1 n)
  show ?case
  proof (cases "n div 2 = 0")
    case True
    with 1 have "n = 1" by (simp add: div_eq_0_iff)
    then show ?thesis by (simp add: spec_log2.simps)
  next
    case False
    then have pos: "0 < n div 2" by simp
    from 1 pos have IH:
      "2 ^ (spec_log2 (n div 2) - 1) \<le> n div 2 \<and> n div 2 < 2 ^ spec_log2 (n div 2)"
      by simp
    have sl: "spec_log2 n = Suc (spec_log2 (n div 2))"
      using 1(2) by (subst spec_log2.simps) simp
    have "spec_log2 (n div 2) > 0" using pos by (subst spec_log2.simps) simp
    then obtain k where kk: "spec_log2 (n div 2) = Suc k"
      by (cases "spec_log2 (n div 2)") auto
    from IH kk have a: "2 ^ k \<le> n div 2" and b: "n div 2 < 2 ^ Suc k" by simp_all
    from a have "2 * 2 ^ k \<le> n" by linarith
    moreover from b have "n < 2 * 2 ^ Suc k" by linarith
    ultimately show ?thesis using sl kk by simp
  qed
qed

text \<open>
  C8, as the code has it. For every size other than 0, \<open>log2\<close> returns the bit length of
  the size \<^emph>\<open>minus one\<close>, the number \<open>k\<close> with \<open>2^k \<le> sz < 2^(k+1)\<close>: the
  function counts the halvings and returns \<^verbatim>\<open>l - 1\<close>.
\<close>

theorem log2_is_bit_length_minus_one:
  "sz \<noteq> 0 \<Longrightarrow>
     log2 sz = Inr (int (spec_log2 (unat sz)) - 1) \<and>
     2 ^ (spec_log2 (unat sz) - 1) \<le> unat sz \<and> unat sz < 2 ^ spec_log2 (unat sz)"
proof -
  assume nz: "sz \<noteq> 0"
  then have "0 < unat sz" by (simp add: unat_gt_0)
  then show ?thesis using nz spec_log2_bounds [of "unat sz"]
    by (simp add: log2_def log2_loop_spec)
qed

text \<open>The theorem at the size 1024, whose bit length is 11.\<close>

theorem log2_is_bit_length_minus_one_witness:
  "log2 (1024 :: u64) = Inr (int (spec_log2 (unat (1024 :: u64))) - 1) \<and>
   spec_log2 (unat (1024 :: u64)) = 11"
proof -
  have h: "(1024 :: u64) \<noteq> 0" by simp
  have s: "spec_log2 (unat (1024 :: u64)) = 11" by code_simp
  show ?thesis using log2_is_bit_length_minus_one [OF h] s by simp
qed

text \<open>
  C8, as the spec states it, fails at 1024: the bit length of 1024 is 11, and \<open>log2\<close>
  returns 10.
\<close>

theorem log2_1024_counterexample:
  "log2 (1024 :: u64) = Inr 10 \<and> spec_log2 (unat (1024 :: u64)) = 11 \<and>
   log2 (1024 :: u64) \<noteq> Inr (int (spec_log2 (unat (1024 :: u64))))"
  by code_simp

subsection \<open>Tombstones in a compaction\<close>

lemma writeRefs_result:
  "writeRefs E first it wr = Inr wr' \<Longrightarrow>
     \<exists>refs. it = map Inr refs \<and>
       wr' = wr\<lparr>w_refs := w_refs wr @ filter (\<lambda>rec. \<not> (first = 0 \<and> isDeletion rec)) refs\<rparr>"
proof (induction E first it wr rule: writeRefs.induct)
  case (1 E first wr)
  then show ?case by simp
next
  case (2 E first err it wr)
  then show ?case by simp
next
  case (3 E first rec it wr)
  show ?case
  proof (cases "first = 0 \<and> isDeletion rec")
    case True
    with 3 obtain refs where "it = map Inr refs"
      "wr' = wr\<lparr>w_refs := w_refs wr @ filter (\<lambda>rec. \<not> (first = 0 \<and> isDeletion rec)) refs\<rparr>"
      by auto
    then have "Inr rec # it = map Inr (rec # refs) \<and>
      wr' = wr\<lparr>w_refs := w_refs wr @ filter (\<lambda>rec. \<not> (first = 0 \<and> isDeletion rec)) (rec # refs)\<rparr>"
      using True by simp
    then show ?thesis by (intro exI [where x = "rec # refs"])
  next
    case False
    with "3.prems" obtain wr1 where a: "AddRef E wr rec = Inr wr1" and r: "writeRefs E first it wr1 = Inr wr'"
      by (auto split: sum.splits)
    from a have wr1: "wr1 = wr\<lparr>w_refs := w_refs wr @ [rec]\<rparr>"
      by (auto simp: AddRef_def split: option.splits)
    from "3.IH"(2) [OF False a r] obtain refs where "it = map Inr refs"
      "wr' = wr1\<lparr>w_refs := w_refs wr1 @ filter (\<lambda>rec. \<not> (first = 0 \<and> isDeletion rec)) refs\<rparr>"
      by auto
    then have "Inr rec # it = map Inr (rec # refs) \<and>
      wr' = wr\<lparr>w_refs := w_refs wr @ filter (\<lambda>rec. \<not> (first = 0 \<and> isDeletion rec)) (rec # refs)\<rparr>"
      using False wr1 by simp
    then show ?thesis by (intro exI [where x = "rec # refs"])
  qed
qed

lemma writeLogs_result:
  "writeLogs E it wr = Inr wr' \<Longrightarrow>
     \<exists>logs. it = map Inr logs \<and> wr' = wr\<lparr>w_logs := w_logs wr @ logs\<rparr>"
proof (induction E it wr rule: writeLogs.induct)
  case (1 E wr)
  then show ?case by simp
next
  case (2 E err it wr)
  then show ?case by simp
next
  case (3 E rec it wr)
  from "3.prems" obtain wr1 where a: "AddLog E wr rec = Inr wr1" and r: "writeLogs E it wr1 = Inr wr'"
    by (auto split: sum.splits)
  from a have wr1: "wr1 = wr\<lparr>w_logs := w_logs wr @ [rec]\<rparr>"
    by (auto simp: AddLog_def split: option.splits)
  from "3.IH" [OF a r] obtain logs where "it = map Inr logs"
    "wr' = wr1\<lparr>w_logs := w_logs wr1 @ logs\<rparr>"
    by auto
  then have "Inr rec # it = map Inr (rec # logs) \<and> wr' = wr\<lparr>w_logs := w_logs wr @ (rec # logs)\<rparr>"
    using wr1 by simp
  then show ?case by (intro exI [where x = "rec # logs"])
qed

text \<open>
  C1. Whenever \<^verbatim>\<open>writeCompact\<close> succeeds, the Merged view's reference iterator yielded
  records \<open>refs\<close> and its log iterator records \<open>logs\<close> with no error, and the Writer
  received, in order, exactly the references that are not (\<open>first = 0\<close> and a deletion),
  and every log record. So a reference is left out if and only if \<open>first = 0\<close> and it
  is a deletion; with \<open>first > 0\<close> every reference read is written.
\<close>

theorem writeCompact_drops_deletions_iff_first_0:
  assumes "writeCompact E wr first lst st = Inr (Inr wr')"
  shows "\<exists>refs logs.
           refIter E (map (\<lambda>i. stack st ! nat i) [first..lst]) = map Inr refs \<and>
           logIter E (map (\<lambda>i. stack st ! nat i) [first..lst]) = map Inr logs \<and>
           w_refs wr' = w_refs wr @ filter (\<lambda>rec. \<not> (first = 0 \<and> isDeletion rec)) refs \<and>
           w_logs wr' = w_logs wr @ logs \<and>
           (first > 0 \<longrightarrow> w_refs wr' = w_refs wr @ refs)"
proof -
  let ?subtabs = "map (\<lambda>i. stack st ! nat i) [first..lst]"
  let ?wr1 = "SetLimits (r_min (stack st ! nat first)) (r_max (stack st ! nat lst)) wr"
  from assms obtain wr2 where
    r: "writeRefs E first (refIter E ?subtabs) ?wr1 = Inr wr2" and
    l: "writeLogs E (logIter E ?subtabs) wr2 = Inr wr'"
    by (auto simp: writeCompact_def Let_def split: if_splits option.splits sum.splits)
  from writeRefs_result [OF r] obtain refs where
    refs: "refIter E ?subtabs = map Inr refs"
      "wr2 = ?wr1\<lparr>w_refs := w_refs ?wr1 @ filter (\<lambda>rec. \<not> (first = 0 \<and> isDeletion rec)) refs\<rparr>"
    by blast
  from writeLogs_result [OF l] obtain logs where
    logs: "logIter E ?subtabs = map Inr logs" "wr' = wr2\<lparr>w_logs := w_logs wr2 @ logs\<rparr>"
    by blast
  have "w_refs wr' = w_refs wr @ filter (\<lambda>rec. \<not> (first = 0 \<and> isDeletion rec)) refs"
    using refs(2) logs(2) by (simp add: SetLimits_def)
  moreover have "w_logs wr' = w_logs wr @ logs"
    using refs(2) logs(2) by (simp add: SetLimits_def)
  ultimately show ?thesis using refs(1) logs(1) by auto
qed

text \<open>
  The theorem at three tables whose Merged view yields a deletion and a value: compacting
  the tables 1 to 2 writes both references, compacting the tables 0 to 2 drops the
  deletion, and both write the log record.
\<close>

theorem writeCompact_drops_deletions_iff_first_0_witness:
  "writeCompact env_merge wr_new 1 2 three_tables
     = Inr (Inr \<lparr>minUpdateIndex = 2, maxUpdateIndex = 3,
                 w_refs = [rec_main_deleted, rec_topic], w_logs = [log_main]\<rparr>) \<and>
   writeCompact env_merge wr_new 0 2 three_tables
     = Inr (Inr \<lparr>minUpdateIndex = 1, maxUpdateIndex = 3,
                 w_refs = [rec_topic], w_logs = [log_main]\<rparr>) \<and>
   isDeletion rec_main_deleted \<and> \<not> isDeletion rec_topic"
proof -
  have h: "writeCompact env_merge wr_new 1 2 three_tables
     = Inr (Inr \<lparr>minUpdateIndex = 2, maxUpdateIndex = 3,
                 w_refs = [rec_main_deleted, rec_topic], w_logs = [log_main]\<rparr>)"
    by code_simp
  have h0: "writeCompact env_merge wr_new 0 2 three_tables
     = Inr (Inr \<lparr>minUpdateIndex = 1, maxUpdateIndex = 3,
                 w_refs = [rec_topic], w_logs = [log_main]\<rparr>)"
    by code_simp
  have d: "isDeletion rec_main_deleted \<and> \<not> isDeletion rec_topic"
    by (simp add: isDeletion_def rec_main_deleted_def rec_topic_def)
  show ?thesis
    using writeCompact_drops_deletions_iff_first_0 [OF h] h h0 d by simp
qed

subsection \<open>The manifest round trip\<close>

lemma Split_not_Nil: "Split s \<noteq> []"
  by (induction s) (auto split: list.splits)

lemma Split_line: "newline \<notin> set x \<Longrightarrow> Split (x @ newline # rest) = x # Split rest"
  by (induction x) (auto split: list.splits simp: Split_not_Nil)

lemma Split_single: "newline \<notin> set x \<Longrightarrow> Split x = [x]"
  by (induction x) (auto split: list.splits)

lemma Split_JoinLines:
  "names \<noteq> [] \<Longrightarrow> \<forall>n\<in>set names. newline \<notin> set n \<Longrightarrow> Split (JoinLines names) = names"
proof (induction names rule: JoinLines.induct)
  case 1
  then show ?case by simp
next
  case (2 x)
  then show ?case by (simp add: Split_single)
next
  case (3 x y ys)
  then show ?case by (simp add: Split_line)
qed

lemma readNames_JoinLines:
  assumes "\<forall>n\<in>set names. n \<noteq> [] \<and> newline \<notin> set n"
    and "fs w (listFile st) = Some (Bytes (JoinLines names))"
    and "fault E s = None"
  shows "readNames E s st w = Inr names"
proof (cases "names = []")
  case True
  then show ?thesis using assms by (simp add: readNames_def)
next
  case False
  then have "Split (JoinLines names) = names" using assms(1) by (simp add: Split_JoinLines)
  moreover have "filter (\<lambda>l. length l > 0) names = names" using assms(1) by (induction names) auto
  ultimately show ?thesis using assms(2,3) by (simp add: readNames_def)
qed

text \<open>
  C9. Writing legal names (none empty, none with a newline) joined by newlines as the
  manifest and reading the names back gives the names; a missing manifest reads as the
  empty list, with no error.
\<close>

theorem readNames_roundtrip:
  "((\<forall>n\<in>set names. n \<noteq> [] \<and> newline \<notin> set n) \<and> fault E s = None \<longrightarrow>
      readNames E s st (w\<lparr>fs := (fs w)(listFile st \<mapsto> Bytes (JoinLines names))\<rparr>) = Inr names) \<and>
   (fs w (listFile st) = None \<longrightarrow> readNames E s st w = Inr [])"
proof (intro conjI impI)
  assume "(\<forall>n\<in>set names. n \<noteq> [] \<and> newline \<notin> set n) \<and> fault E s = None"
  then show "readNames E s st (w\<lparr>fs := (fs w)(listFile st \<mapsto> Bytes (JoinLines names))\<rparr>) = Inr names"
    by (intro readNames_JoinLines) simp_all
next
  assume "fs w (listFile st) = None"
  then show "readNames E s st w = Inr []" by (simp add: readNames_def)
qed

text \<open>The theorem at two names, and at the empty file system.\<close>

theorem readNames_roundtrip_witness:
  "readNames env_ok ReadList new_stack
     (fresh_world\<lparr>fs := (fs fresh_world)(listFile new_stack \<mapsto>
        Bytes (JoinLines [''000000000001-000000000001.ref'', ''000000000002-000000000002.ref'']))\<rparr>)
     = Inr [''000000000001-000000000001.ref'', ''000000000002-000000000002.ref''] \<and>
   JoinLines [''000000000001-000000000001.ref'', ''000000000002-000000000002.ref'']
     = ''000000000001-000000000001.ref'' @ [newline] @ ''000000000002-000000000002.ref'' \<and>
   fs fresh_world (listFile new_stack) = None \<and>
   readNames env_ok ReadList new_stack fresh_world = Inr []"
  using readNames_roundtrip
    [of "[''000000000001-000000000001.ref'', ''000000000002-000000000002.ref'']"
        env_ok ReadList new_stack fresh_world]
  by (simp add: env_ok_def fresh_world_def newline_def)

subsection \<open>AutoCompact and tables of 91 bytes or less\<close>

lemma log2_zero: "log2 0 = Inl LogZero" by (simp add: log2_def)
lemma log2_nonzero: "sz \<noteq> 0 \<Longrightarrow> \<exists>l. log2 sz = Inr l" by (simp add: log2_def)

lemma sizesToSegments_loop_zero:
  "0 \<in> set sizes \<Longrightarrow> sizesToSegments_loop sizes i cur res = Inl LogZero"
proof (induction sizes arbitrary: i cur res)
  case Nil
  then show ?case by simp
next
  case (Cons sz rest)
  show ?case
  proof (cases "sz = 0")
    case True
    then show ?thesis by (simp add: log2_zero)
  next
    case False
    then obtain l where l: "log2 sz = Inr l" using log2_nonzero by blast
    from False Cons.prems have "0 \<in> set rest" by auto
    then show ?thesis using l Cons.IH by (simp add: Let_def)
  qed
qed

lemma suggest_zero: "0 \<in> set sizes \<Longrightarrow> suggestCompactionSegment sizes = Inl LogZero"
  by (simp add: suggestCompactionSegment_def sizesToSegments_def sizesToSegments_loop_zero)

lemma AutoCompact_91:
  assumes "t \<in> set (stack st)" and "r_size t = 91"
  shows "AutoCompact E st w = Inl LogZero"
proof -
  have "0 \<in> set (tableSizesForCompaction st)"
    using assms by (force simp: tableSizesForCompaction_def)
  then show ?thesis by (simp add: AutoCompact_def suggest_zero)
qed

lemma wrap_below_91:
  fixes x :: u64
  assumes "x < 91"
  shows "unat (x - 91) = 2 ^ 64 - 91 + unat x"
proof -
  have lt: "unat x < 91" using assms by (simp add: word_less_nat_alt)
  then have "unat (x - 91) = unat x + 2 ^ 64 - 91"
    by (simp add: unat_sub_if')
  then show ?thesis by simp
qed

lemma sizesToSegments_loop_nonzero:
  "0 \<notin> set sizes \<Longrightarrow> \<exists>segs. sizesToSegments_loop sizes i cur res = Inr segs"
proof (induction sizes arbitrary: i cur res)
  case Nil
  then show ?case by simp
next
  case (Cons sz rest)
  then have "sz \<noteq> 0" by auto
  then obtain l where l: "log2 sz = Inr l" using log2_nonzero by blast
  from Cons.prems have "0 \<notin> set rest" by auto
  then show ?case using l Cons.IH by (simp add: Let_def)
qed

lemma sizesToSegments_panics_iff:
  "(\<exists>p. sizesToSegments sizes = Inl p) \<longleftrightarrow> 0 \<in> set sizes"
proof
  assume "\<exists>p. sizesToSegments sizes = Inl p"
  then obtain p where p: "sizesToSegments_loop sizes 0 segment_zero [] = Inl p"
    by (auto simp: sizesToSegments_def)
  show "0 \<in> set sizes"
  proof (rule ccontr)
    assume "0 \<notin> set sizes"
    from sizesToSegments_loop_nonzero [OF this, of 0 segment_zero "[]"] p show False by simp
  qed
next
  assume "0 \<in> set sizes"
  then show "\<exists>p. sizesToSegments sizes = Inl p"
    by (simp add: sizesToSegments_def sizesToSegments_loop_zero)
qed

lemma zero_in_sizes:
  "0 \<in> set (tableSizesForCompaction st) \<longleftrightarrow> (\<exists>t\<in>set (stack st). r_size t = 91)"
  by (auto simp: tableSizesForCompaction_def)

lemma suggest_single: "sz \<noteq> 0 \<Longrightarrow> suggestCompactionSegment [sz] = Inr None"
  by (simp add: suggestCompactionSegment_def sizesToSegments_def log2_def Let_def
        segment_zero_def segment_size_def)

lemma AutoCompact_single:
  assumes "stack st = [t]" and "r_size t \<noteq> 91"
  shows "AutoCompact E st w = Inr (None, st, w)"
proof -
  have "tableSizesForCompaction st = [r_size t - 91]"
    using assms by (simp add: tableSizesForCompaction_def)
  moreover have "r_size t - 91 \<noteq> 0" using assms by simp
  ultimately show ?thesis by (simp add: AutoCompact_def suggest_single)
qed

text \<open>
  C10, as the code has it. The sizes fed to segment selection are \<^verbatim>\<open>t.size - 91\<close> in
  \<^verbatim>\<open>uint64\<close>. A stack with a table of exactly 91 bytes makes \<^verbatim>\<open>AutoCompact\<close> panic
  with \<^verbatim>\<open>log(0)\<close>, and \<^verbatim>\<open>sizesToSegments\<close> panics on these sizes only then. A table
  of fewer than 91 bytes gives the size \<open>2^64 - 91 + size\<close>, which is not 0: on a
  stack of one table \<^verbatim>\<open>AutoCompact\<close> returns without a panic, an error or a change,
  unless the table has exactly 91 bytes. So \<^verbatim>\<open>AutoCompact\<close> can return although a
  table is not larger than 91 bytes.
\<close>

theorem AutoCompact_panics_on_91_bytes:
  "tableSizesForCompaction st = map (\<lambda>t. r_size t - 91) (stack st) \<and>
   ((\<exists>t\<in>set (stack st). r_size t = 91) \<longrightarrow> AutoCompact E st w = Inl LogZero) \<and>
   ((\<exists>p. sizesToSegments (tableSizesForCompaction st) = Inl p)
      \<longleftrightarrow> (\<exists>t\<in>set (stack st). r_size t = 91)) \<and>
   (\<forall>t :: Reader. r_size t < 91 \<longrightarrow>
      unat (r_size t - 91) = 2 ^ 64 - 91 + unat (r_size t) \<and> r_size t - 91 \<noteq> 0) \<and>
   (\<forall>t. stack st = [t] \<and> r_size t \<noteq> 91 \<longrightarrow> AutoCompact E st w = Inr (None, st, w))"
proof (intro conjI impI allI)
  show "tableSizesForCompaction st = map (\<lambda>t. r_size t - 91) (stack st)"
    by (simp add: tableSizesForCompaction_def)
next
  assume "\<exists>t\<in>set (stack st). r_size t = 91"
  then show "AutoCompact E st w = Inl LogZero" using AutoCompact_91 by blast
next
  show "(\<exists>p. sizesToSegments (tableSizesForCompaction st) = Inl p)
      \<longleftrightarrow> (\<exists>t\<in>set (stack st). r_size t = 91)"
    by (simp only: sizesToSegments_panics_iff zero_in_sizes)
next
  fix t :: Reader
  assume "r_size t < 91"
  then show "unat (r_size t - 91) = 2 ^ 64 - 91 + unat (r_size t)" by (rule wrap_below_91)
next
  fix t :: Reader
  assume "r_size t < 91"
  then show "r_size t - 91 \<noteq> 0" by auto
next
  fix t
  assume "stack st = [t] \<and> r_size t \<noteq> 91"
  then show "AutoCompact E st w = Inr (None, st, w)" using AutoCompact_single by blast
qed

text \<open>
  The theorem at stacks of one table, of 91 bytes (a panic) and of 300 bytes, and at a
  table of 90 bytes.
\<close>

theorem AutoCompact_panics_on_91_bytes_witness:
  "AutoCompact env_ok (one_table 91) fresh_world = Inl LogZero \<and>
   (\<exists>p. sizesToSegments (tableSizesForCompaction (one_table 91)) = Inl p) \<and>
   unat (r_size (reader_at 0 1 90) - 91) = 2 ^ 64 - 91 + 90 \<and>
   AutoCompact env_ok (one_table 300) fresh_world = Inr (None, one_table 300, fresh_world) \<and>
   tableSizesForCompaction (one_table 300) = [209]"
proof -
  have s91: "\<exists>t\<in>set (stack (one_table 91)). r_size t = 91"
    by (simp add: one_table_def reader_at_def)
  have st300: "stack (one_table 300) = [reader_at 0 1 300] \<and> r_size (reader_at 0 1 300) \<noteq> 91"
    by (simp add: one_table_def reader_at_def)
  have lt: "r_size (reader_at 0 1 90) < 91" by (simp add: reader_at_def)
  have s90: "unat (r_size (reader_at 0 1 90)) = 90" by (simp add: reader_at_def)
  note t91 = AutoCompact_panics_on_91_bytes [of "one_table 91" env_ok fresh_world]
  note t300 = AutoCompact_panics_on_91_bytes [of "one_table 300" env_ok fresh_world]
  from t91 s91 have p91: "AutoCompact env_ok (one_table 91) fresh_world = Inl LogZero" by blast
  from t91 s91 have q91: "\<exists>p. sizesToSegments (tableSizesForCompaction (one_table 91)) = Inl p"
    by blast
  from t300 lt
  have "unat (r_size (reader_at 0 1 90) - 91) = 2 ^ 64 - 91 + unat (r_size (reader_at 0 1 90))"
    by blast
  then have w90: "unat (r_size (reader_at 0 1 90) - 91) = 2 ^ 64 - 91 + 90" using s90 by simp
  from t300 st300 have a300: "AutoCompact env_ok (one_table 300) fresh_world
      = Inr (None, one_table 300, fresh_world)" by blast
  from t300
  have "tableSizesForCompaction (one_table 300) = map (\<lambda>t. r_size t - 91) (stack (one_table 300))"
    by blast
  then have s300: "tableSizesForCompaction (one_table 300) = [209]"
    by (simp add: one_table_def reader_at_def)
  from p91 q91 w90 a300 s300 show ?thesis by blast
qed

text \<open>
  C10, as the spec states it, fails: "\<^verbatim>\<open>AutoCompact\<close> is total only when every open
  table's file size strictly exceeds 91 bytes". On a stack of one table of 90 bytes the
  size fed to segment selection is \<open>2^64 - 1\<close>, and \<^verbatim>\<open>AutoCompact\<close> returns without a
  panic and without an error.
\<close>

theorem AutoCompact_90_bytes_counterexample:
  "stack (one_table 90) = [reader_at 0 1 90] \<and> r_size (reader_at 0 1 90) = 90 \<and>
   \<not> (\<forall>t\<in>set (stack (one_table 90)). 91 < r_size t) \<and>
   tableSizesForCompaction (one_table 90) = [18446744073709551615] \<and>
   AutoCompact env_ok (one_table 90) fresh_world = Inr (None, one_table 90, fresh_world)"
proof -
  have s90: "tableSizesForCompaction (one_table 90) = [18446744073709551615]"
    by (simp add: tableSizesForCompaction_def one_table_def reader_at_def)
  have "suggestCompactionSegment [18446744073709551615] = Inr None" by code_simp
  then have "AutoCompact env_ok (one_table 90) fresh_world = Inr (None, one_table 90, fresh_world)"
    by (simp add: AutoCompact_def s90)
  then show ?thesis using s90 by (simp add: one_table_def reader_at_def)
qed

subsection \<open>Reload leaves the file system alone\<close>

lemma fs_Close_reader [simp]: "fs (Close_reader r w) = fs w"
  by (simp add: Close_reader_def)

lemma fs_fold_Close_reader [simp]: "fs (fold Close_reader rs w) = fs w"
  by (induction rs arbitrary: w) simp_all

lemma NewReader_fs: "NewReader E bs nm w = Inr (rd, w') \<Longrightarrow> fs w' = fs w"
  by (auto simp: NewReader_def split: option.splits node.splits)

lemma reloadOnce_loop_fs_Inr:
  "reloadOnce_loop E dir names cur acc w = Inr (cur', nt, w') \<Longrightarrow> fs w' = fs w"
proof (induction names arbitrary: cur acc w)
  case Nil
  then show ?case by simp
next
  case (Cons nm names)
  show ?case
  proof (cases "map_of cur nm")
    case (Some rd)
    with Cons show ?thesis by simp
  next
    case None
    with Cons.prems obtain bs rd w1 where
      "NewReader E bs nm w = Inr (rd, w1)"
      "reloadOnce_loop E dir names cur (acc @ [rd]) w1 = Inr (cur', nt, w')"
      by (auto split: sum.splits)
    then show ?thesis using Cons.IH NewReader_fs by metis
  qed
qed

lemma reloadOnce_loop_fs_Inl:
  "reloadOnce_loop E dir names cur acc w = Inl (err, nt, w') \<Longrightarrow> fs w' = fs w"
proof (induction names arbitrary: cur acc w)
  case Nil
  then show ?case by simp
next
  case (Cons nm names)
  show ?case
  proof (cases "map_of cur nm")
    case (Some rd)
    with Cons show ?thesis by simp
  next
    case None
    show ?thesis
    proof (cases "NewFileBlockSource E nm (Join dir nm) w")
      case (Inl e)
      with None Cons.prems show ?thesis by simp
    next
      case (Inr bs)
      show ?thesis
      proof (cases "NewReader E bs nm w")
        case (Inl e)
        with None Inr Cons.prems show ?thesis by simp
      next
        case (Inr p)
        obtain rd w1 where p: "p = (rd, w1)" by (cases p)
        with Inr have nr: "NewReader E bs nm w = Inr (rd, w1)" by simp
        with None \<open>NewFileBlockSource E nm (Join dir nm) w = Inr bs\<close> Cons.prems
        have "reloadOnce_loop E dir names cur (acc @ [rd]) w1 = Inl (err, nt, w')" by simp
        then have "fs w' = fs w1" by (rule Cons.IH)
        then show ?thesis using NewReader_fs [OF nr] by simp
      qed
    qed
  qed
qed

lemma reloadOnce_fs: "reloadOnce E names st w = (err, st', w') \<Longrightarrow> fs w' = fs w"
  by (auto simp: reloadOnce_def split: sum.splits prod.splits
           dest: reloadOnce_loop_fs_Inl reloadOnce_loop_fs_Inr)

lemma reloadOnce_fail_stack: "reloadOnce E names st w = (Some err, st', w') \<Longrightarrow> st' = st"
  by (auto simp: reloadOnce_def split: sum.splits prod.splits)

lemma reload_loop_fs: "reload_loop n E st w = (err, st', w') \<Longrightarrow> fs w' = fs w"
proof (induction n arbitrary: st w)
  case 0
  then show ?case by simp
next
  case (Suc n)
  show ?case
  proof (cases "readNames E ReadList st w")
    case (Inl e)
    with Suc.prems show ?thesis by simp
  next
    case (Inr names)
    obtain e1 st1 w1 where r: "reloadOnce E names st w = (e1, st1, w1)" by (cases "reloadOnce E names st w")
    then have f1: "fs w1 = fs w" by (rule reloadOnce_fs)
    show ?thesis
    proof (cases e1)
      case None
      with Inr r Suc.prems f1 show ?thesis by simp
    next
      case (Some e)
      show ?thesis
      proof (cases "\<not> IsNotExist e")
        case True
        with Some Inr r Suc.prems f1 show ?thesis by simp
      next
        case False
        show ?thesis
        proof (cases "readNames E ReadListAfter st1 w1")
          case (Inl e2)
          with False Some Inr r Suc.prems f1 show ?thesis by simp
        next
          case after: (Inr after)
          show ?thesis
          proof (cases "after = names")
            case True
            with after False Some Inr r Suc.prems f1 show ?thesis by simp
          next
            case ne: False
            with after False Some Inr r Suc.prems have "reload_loop n E st1 w1 = (err, st', w')" by simp
            then have "fs w' = fs w1" by (rule Suc.IH)
            with f1 show ?thesis by simp
          qed
        qed
      qed
    qed
  qed
qed

lemma reload_fs: "reload E st w = (err, st', w') \<Longrightarrow> fs w' = fs w"
  by (auto simp: reload_def split: prod.splits option.splits dest: reload_loop_fs)

text \<open>
  A reload that returns no error either left the stack as it was (the deadline had
  passed before the first iteration) or installed the result of one successful
  \<^verbatim>\<open>reloadOnce\<close> over the names read from the manifest.
\<close>

lemma reload_loop_stack:
  "reload_loop n E st w = (None, st', w') \<Longrightarrow>
     st' = st \<or> (\<exists>names w0 w1. fs w0 = fs w \<and> readNames E ReadList st w0 = Inr names \<and>
                    reloadOnce E names st w0 = (None, st', w1))"
proof (induction n arbitrary: w)
  case 0
  then show ?case by simp
next
  case (Suc n)
  from Suc.prems obtain names where rn: "readNames E ReadList st w = Inr names"
    by (auto split: sum.splits)
  obtain e1 st1 w1 where r: "reloadOnce E names st w = (e1, st1, w1)"
    by (cases "reloadOnce E names st w")
  show ?case
  proof (cases e1)
    case None
    with rn r Suc.prems have "st' = st1" by simp
    with None rn r show ?thesis by blast
  next
    case (Some e)
    with r have st1: "st1 = st" by (simp add: reloadOnce_fail_stack)
    from r have f1: "fs w1 = fs w" by (rule reloadOnce_fs)
    from Some rn r Suc.prems st1 have "reload_loop n E st w1 = (None, st', w')"
      by (auto split: if_splits sum.splits)
    from Suc.IH [OF this] f1 show ?thesis by auto
  qed
qed

lemma reload_stack:
  assumes "reload E st w = (None, st', w')"
  shows "stack st' = stack st \<or>
         (\<exists>names w0 w1 st1. fs w0 = fs w \<and> readNames E ReadList st w = Inr names \<and>
             reloadOnce E names st w0 = (None, st1, w1) \<and> stack st' = stack st1)"
proof -
  from assms obtain st1 w1 where l: "reload_loop (reloadFuel E) E st w = (None, st1, w1)"
    and s: "stack st' = stack st1"
    by (auto simp: reload_def split: prod.splits option.splits)
  from reload_loop_stack [OF l] show ?thesis
  proof
    assume "st1 = st" with s show ?thesis by simp
  next
    assume "\<exists>names w0 w1'. fs w0 = fs w \<and> readNames E ReadList st w0 = Inr names \<and>
                    reloadOnce E names st w0 = (None, st1, w1')"
    then obtain names w0 w1' where a: "fs w0 = fs w" "readNames E ReadList st w0 = Inr names"
       "reloadOnce E names st w0 = (None, st1, w1')" by blast
    from a(1,2) have "readNames E ReadList st w = Inr names" by (simp add: readNames_def)
    with a s show ?thesis by blast
  qed
qed

subsection \<open>What a successful add did\<close>

lemma ref_neq_lock: "a @ ''.ref'' \<noteq> b @ ''.lock''"
proof
  assume "a @ ''.ref'' = b @ ''.lock''"
  then have "last (a @ ''.ref'') = last (b @ ''.lock'')" by simp
  then show False by simp
qed

lemma Join_ref_neq_lock: "Join d (a @ ''.ref'') \<noteq> b @ ''.lock''"
  using ref_neq_lock [of "d @ ''/'' @ a" b] by (simp add: Join_def)

lemma add_table_success:
  assumes "add_table E write st lockFile names next fn tab w = (None, lf, st', w')"
    and "lockFile = listFile st @ ''.lock''"
    and "fs w tab \<noteq> None" and "fs w lockFile \<noteq> None"
  shows "\<exists>wr0 wr w4. NewWriter E = Inr wr0 \<and> write wr0 = Inr wr \<and> \<not> minUpdateIndex wr < next \<and>
           fs w4 = (fs w)(tab := None, lockFile := None,
                     Join (reftableDir st) (fn @ ''.ref'') \<mapsto> Table (table_of E wr),
                     listFile st \<mapsto> Bytes (JoinLines (names @ [fn @ ''.ref''])))
           \<and> reload E st w4 = (None, st', w') \<and> lf = []"
proof -
  let ?dest = "Join (reftableDir st) (fn @ ''.ref'')"
  from assms(1) obtain wr0 where wr0: "NewWriter E = Inr wr0"
    by (auto simp: add_table_def split: sum.splits)
  from assms(1) wr0 obtain wr where wr: "write wr0 = Inr wr"
    by (auto simp: add_table_def split: sum.splits)
  from assms(1) wr0 wr obtain w1 where w1: "Writer_Close E tab wr w = Inr w1"
    by (auto simp: add_table_def split: sum.splits)
  then have f1: "fs w1 = (fs w)(tab \<mapsto> Table (table_of E wr))"
    by (auto simp: Writer_Close_def split: option.splits)
  from assms(1) wr0 wr w1 have tc: "fault E TabClose = None"
    by (auto simp: add_table_def split: option.splits)
  from assms(1) wr0 wr w1 tc have mn: "\<not> minUpdateIndex wr < next"
    by (auto simp: add_table_def split: if_splits)
  from assms(1) wr0 wr w1 tc mn obtain w2 where w2: "Rename E RenameTable tab ?dest w1 = Inr w2"
    by (auto simp: add_table_def Let_def split: sum.splits)
  then have f2: "fs w2 = (fs w)(tab := None, ?dest \<mapsto> Table (table_of E wr))"
    using f1 by (auto simp: Rename_def split: if_splits option.splits)
  from assms(1) wr0 wr w1 tc mn w2 have wl: "fault E WriteLock = None"
    by (auto simp: add_table_def Let_def split: option.splits)
  let ?w3 = "w2\<lparr>fs := (fs w2)(lockFile \<mapsto> Bytes (JoinLines (names @ [fn @ ''.ref''])))\<rparr>"
  from assms(1) wr0 wr w1 tc mn w2 wl have cl: "fault E CloseLock = None"
    by (auto simp: add_table_def Let_def split: option.splits)
  from assms(1) wr0 wr w1 tc mn w2 wl cl obtain w4 where
    w4: "Rename E RenameLock lockFile (listFile st) ?w3 = Inr w4"
    by (auto simp: add_table_def Let_def split: sum.splits)
  have ne: "lockFile \<noteq> listFile st" using assms(2) by simp
  from w4 ne have f4: "fs w4 = (fs ?w3)(listFile st := fs ?w3 lockFile, lockFile := None)"
    by (auto simp: Rename_def split: if_splits option.splits)
  have dl: "?dest \<noteq> lockFile" using assms(2) Join_ref_neq_lock by simp
  have f4': "fs w4 = (fs w)(tab := None, lockFile := None, ?dest \<mapsto> Table (table_of E wr),
                     listFile st \<mapsto> Bytes (JoinLines (names @ [fn @ ''.ref''])))"
    using f4 f2 ne dl by (auto simp: fun_upd_def)
  from assms(1) wr0 wr w1 tc mn w2 wl cl w4 have "reload E st w4 = (None, st', w') \<and> lf = []"
    by (auto simp: add_table_def Let_def split: prod.splits)
  with wr0 wr mn f4' show ?thesis by blast
qed

lemma UpToDate_cong: "fs w' (listFile st) = fs w (listFile st) \<Longrightarrow> UpToDate E st w' = UpToDate E st w"
  by (simp add: UpToDate_def readNames_def)

lemma add_success:
  assumes "add E write st w = (None, st', w')"
  shows "\<exists>wr0 wr w4.
           UpToDate E st w = Inr True \<and>
           NewWriter E = Inr wr0 \<and> write wr0 = Inr wr \<and>
           \<not> minUpdateIndex wr < NextUpdateIndex st \<and>
           fs w4 = (fs w)(Join (reftableDir st)
                            (formatName (NextUpdateIndex st) (NextUpdateIndex st) @ ''.ref'')
                              \<mapsto> Table (table_of E wr),
                          listFile st \<mapsto> Bytes (JoinLines (map r_name (stack st) @
                            [formatName (NextUpdateIndex st) (NextUpdateIndex st) @ ''.ref''])))
           \<and> reload E st w4 = (None, st', w4\<lparr>closed := closed w', nextId := nextId w'\<rparr>)
           \<and> fs w' = fs w4"
proof -
  let ?lock = "listFile st @ ''.lock''"
  let ?next = "NextUpdateIndex st"
  let ?fn = "formatName ?next ?next"
  let ?dest = "Join (reftableDir st) (?fn @ ''.ref'')"
  let ?J = "Bytes (JoinLines (map r_name (stack st) @ [?fn @ ''.ref'']))"
  from assms obtain w1 where w1: "OpenFile_excl E OpenLock ?lock w = Inr w1"
    by (auto simp: add_def Let_def split: sum.splits if_splits)
  then have l0: "fs w ?lock = None" and f1: "fs w1 = (fs w)(?lock \<mapsto> Bytes [])"
    by (auto simp: OpenFile_excl_def split: if_splits option.splits)
  from assms w1 have u1: "UpToDate E st w1 = Inr True"
    by (auto simp: add_def Let_def split: sum.splits if_splits)
  have "fs w1 (listFile st) = fs w (listFile st)" using f1 by simp
  then have u: "UpToDate E st w = Inr True" using u1 UpToDate_cong by metis
  from assms w1 u1 obtain tab w2 where t: "TempFile E (reftableDir st) ?fn ''.ref'' w1 = Inr (tab, w2)"
    by (auto simp: add_def Let_def split: sum.splits)
  then have t0: "fs w1 tab = None" and f2: "fs w2 = (fs w1)(tab \<mapsto> Bytes [])"
    by (auto simp: TempFile_def Let_def split: if_splits option.splits)
  from t0 f1 have tl: "tab \<noteq> ?lock" by auto
  from t0 f1 tl have t00: "fs w tab = None" by simp
  obtain err lf st2 w3 where at: "add_table E write st ?lock (map r_name (stack st)) ?next ?fn tab w2 = (err, lf, st2, w3)"
    by (cases "add_table E write st ?lock (map r_name (stack st)) ?next ?fn tab w2") auto
  with assms w1 u1 t have res: "err = None" "st2 = st'" "w' = (if lf \<noteq> [] then Remove lf (Remove ?lock w3) else Remove ?lock w3)"
    by (auto simp: add_def Let_def)
  have "fs w2 tab \<noteq> None" "fs w2 ?lock \<noteq> None" using f2 f1 tl by auto
  from add_table_success [OF at [unfolded res(1)] refl this]
  obtain wr0 wr w4 where a: "NewWriter E = Inr wr0" "write wr0 = Inr wr" "\<not> minUpdateIndex wr < ?next"
    "fs w4 = (fs w2)(tab := None, ?lock := None, ?dest \<mapsto> Table (table_of E wr), listFile st \<mapsto> ?J)"
    "reload E st w4 = (None, st2, w3)" "lf = []"
    by blast
  have base: "(fs w2)(tab := None, ?lock := None) = fs w"
    using f2 f1 l0 t00 by (auto simp: fun_upd_def)
  have f4: "fs w4 = (fs w)(?dest \<mapsto> Table (table_of E wr), listFile st \<mapsto> ?J)"
    using a(4) base by simp
  have f3: "fs w3 = fs w4" using reload_fs [OF a(5)] .
  have dl: "?dest \<noteq> ?lock" using Join_ref_neq_lock by simp
  have "fs w4 ?lock = None" using f4 l0 dl by simp
  then have fw: "fs w' = fs w4" using res(3) a(6) f3 by (auto simp: Remove_def)
  have "w3 = w4\<lparr>closed := closed w3, nextId := nextId w3\<rparr>" using f3 by (cases w3, cases w4) simp
  moreover have "closed w' = closed w3" "nextId w' = nextId w3" using res(3) a(6) by (simp_all add: Remove_def)
  ultimately have "reload E st w4 = (None, st', w4\<lparr>closed := closed w', nextId := nextId w'\<rparr>)"
    using a(5) res(2) by simp
  with u a(1,2,3) f4 fw show ?thesis by blast
qed

subsection \<open>Names determine their two numbers\<close>

lemma hexdigit_val_hexdigit: "d < 16 \<Longrightarrow> hexdigit_val (hexdigit d) = d"
proof -
  have "\<forall>d\<in>set [0..<16]. hexdigit_val (hexdigit d) = d" by code_simp
  moreover assume "d < 16"
  ultimately show ?thesis by simp
qed

lemma hexdigit_in: "d < 16 \<Longrightarrow> hexdigit d \<in> set ''0123456789abcdef''"
  unfolding hexdigit_def by (rule nth_mem) simp

lemma hex_chars: "set (hex n) \<subseteq> set ''0123456789abcdef''"
proof (induction n rule: hex.induct)
  case (1 n)
  show ?case
  proof (cases "n < 16")
    case True
    then show ?thesis using hexdigit_in [of n] by (subst hex.simps) simp
  next
    case False
    have "n mod 16 < 16" by simp
    from hexdigit_in [OF this] 1 False show ?thesis by (subst hex.simps) simp
  qed
qed

lemma pad12_chars: "set (pad12 (hex n)) \<subseteq> set ''0123456789abcdef''"
  using hex_chars [of n] by (auto simp: pad12_def)

lemma hexval_snoc: "hexval (s @ [c]) = 16 * hexval s + hexdigit_val c"
  by (simp add: hexval_def)

lemma hexval_hex: "hexval (hex n) = n"
proof (induction n rule: hex.induct)
  case (1 n)
  show ?case
  proof (cases "n < 16")
    case True
    then show ?thesis by (subst hex.simps) (simp add: hexval_def hexdigit_val_hexdigit)
  next
    case False
    have "hexval (hex n) = 16 * hexval (hex (n div 16)) + hexdigit_val (hexdigit (n mod 16))"
      using False by (subst hex.simps) (simp add: hexval_snoc)
    also have "\<dots> = 16 * (n div 16) + n mod 16"
      using 1 False by (simp add: hexdigit_val_hexdigit)
    finally show ?thesis by simp
  qed
qed

lemma hexval_zeros: "hexval (replicate k (CHR ''0'') @ s) = hexval s"
proof -
  have z: "hexdigit_val (CHR ''0'') = 0" by (simp add: hexdigit_val_def)
  have "foldl (\<lambda>acc c. 16 * acc + hexdigit_val c) 0 (replicate k (CHR ''0'')) = 0"
    by (induction k) (simp_all add: z)
  then show ?thesis by (simp add: hexval_def)
qed

lemma hexval_pad12: "hexval (pad12 (hex n)) = n"
  by (simp add: pad12_def hexval_zeros hexval_hex)

lemma takeWhile_stop: "c \<notin> set xs \<Longrightarrow> takeWhile (\<lambda>x. x \<noteq> c) (xs @ c # ys) = xs"
  by (induction xs) auto

lemma dropWhile_stop: "c \<notin> set xs \<Longrightarrow> dropWhile (\<lambda>x. x \<noteq> c) (xs @ c # ys) = c # ys"
  by (induction xs) auto

lemma name_min_formatName: "name_min (formatName a b @ ''.ref'') = a"
proof -
  have "CHR ''-'' \<notin> set (pad12 (hex (unat a)))" using pad12_chars [of "unat a"] by auto
  then have "takeWhile (\<lambda>c. c \<noteq> CHR ''-'') (formatName a b @ ''.ref'') = pad12 (hex (unat a))"
    using takeWhile_stop [of "CHR ''-''" "pad12 (hex (unat a))" "pad12 (hex (unat b)) @ ''.ref''"]
    by (simp add: formatName_def)
  then show ?thesis by (simp add: name_min_def hexval_pad12)
qed

lemma name_max_formatName: "name_max (formatName a b @ ''.ref'') = b"
proof -
  have "CHR ''-'' \<notin> set (pad12 (hex (unat a)))" using pad12_chars [of "unat a"] by auto
  then have d: "dropWhile (\<lambda>c. c \<noteq> CHR ''-'') (formatName a b @ ''.ref'')
      = CHR ''-'' # pad12 (hex (unat b)) @ ''.ref''"
    using dropWhile_stop [of "CHR ''-''" "pad12 (hex (unat a))" "pad12 (hex (unat b)) @ ''.ref''"]
    by (simp add: formatName_def)
  have "CHR ''.'' \<notin> set (pad12 (hex (unat b)))" using pad12_chars [of "unat b"] by auto
  then have "takeWhile (\<lambda>c. c \<noteq> CHR ''.'') (pad12 (hex (unat b)) @ ''.ref'') = pad12 (hex (unat b))"
    using takeWhile_stop [of "CHR ''.''" "pad12 (hex (unat b))" "''ref''"] by simp
  then show ?thesis using d by (simp add: name_max_def hexval_pad12)
qed

lemma formatName_legal: "formatName a b @ ''.ref'' \<noteq> [] \<and> newline \<notin> set (formatName a b @ ''.ref'')"
  using pad12_chars [of "unat a"] pad12_chars [of "unat b"]
  by (auto simp: formatName_def newline_def)

subsection \<open>The stack invariant on lists of readers\<close>

lemma stack_ok_Nil [simp]: "stack_ok []"
  by (simp add: stack_ok_def)

lemma reader_ok_min_le_max: "reader_ok r \<Longrightarrow> name_min (r_name r) \<le> r_max r"
  by (auto simp: reader_ok_def)

lemma stack_ok_distinct: "stack_ok rs \<Longrightarrow> distinct (map r_name rs)"
proof (induction rs)
  case Nil
  then show ?case by simp
next
  case (Cons r rs)
  then have ok: "reader_ok r" and above: "\<forall>s\<in>set rs. r_max r < name_min (r_name s)"
    and rest: "stack_ok rs"
    by (auto simp: stack_ok_def)
  have "r_name r \<notin> set (map r_name rs)"
  proof
    assume "r_name r \<in> set (map r_name rs)"
    then obtain s where s: "s \<in> set rs" "r_name s = r_name r" by auto
    with above have "r_max r < name_min (r_name r)" by auto
    with reader_ok_min_le_max [OF ok] show False by simp
  qed
  with Cons.IH [OF rest] show ?case by simp
qed

lemma stack_ok_adjacent:
  assumes "stack_ok rs" and "Suc i < length rs"
  shows "r_max (rs ! i) < r_min (rs ! Suc i)"
proof -
  from assms have "r_max (rs ! i) < name_min (r_name (rs ! Suc i))"
    by (simp add: stack_ok_def sorted_wrt_iff_nth_less)
  moreover from assms have "reader_ok (rs ! Suc i)" by (simp add: stack_ok_def)
  ultimately show ?thesis by (auto simp: reader_ok_def)
qed

lemma stack_ok_max_le_last:
  assumes "stack_ok rs" and "r \<in> set rs"
  shows "r_max r \<le> r_max (last rs)"
proof -
  from assms(2) obtain i where i: "i < length rs" "rs ! i = r" by (auto simp: in_set_conv_nth)
  then have ne: "rs \<noteq> []" by auto
  show ?thesis
  proof (cases "i = length rs - 1")
    case True
    with i ne show ?thesis by (simp add: last_conv_nth)
  next
    case False
    with i have lt: "i < length rs - 1" by simp
    with assms(1) have "r_max (rs ! i) < name_min (r_name (rs ! (length rs - 1)))"
      by (simp add: stack_ok_def sorted_wrt_iff_nth_less)
    moreover have "reader_ok (rs ! (length rs - 1))" using assms(1) ne by (simp add: stack_ok_def)
    ultimately have "r_max (rs ! i) < r_max (rs ! (length rs - 1))"
      using reader_ok_min_le_max by fastforce
    with i ne show ?thesis by (simp add: last_conv_nth)
  qed
qed

lemma word_less_succ: "(x :: u64) + 1 \<noteq> 0 \<Longrightarrow> x < x + 1"
proof -
  assume "x + 1 \<noteq> 0"
  then have "1 + x \<noteq> 0" by (simp add: add.commute)
  then have "unat (1 + x) = Suc (unat x)" by (rule unatSuc)
  then show ?thesis by (simp add: word_less_nat_alt add.commute)
qed

lemma stack_ok_append:
  assumes ok: "stack_ok rs"
    and nm: "r_name r' = formatName next next @ ''.ref''"
    and nx: "next = (if rs = [] then 1 else r_max (last rs) + 1)" and nowrap: "next \<noteq> 0"
    and lo: "next \<le> r_min r'" and mm: "r_min r' \<le> r_max r'"
  shows "stack_ok (rs @ [r'])"
proof -
  have nmin: "name_min (r_name r') = next" and nmax: "name_max (r_name r') = next"
    using nm by (simp_all add: name_min_formatName name_max_formatName)
  have r'ok: "reader_ok r'" using nm nmin nmax lo mm by (auto simp: reader_ok_def)
  have "\<forall>x\<in>set rs. r_max x < next"
  proof
    fix x assume x: "x \<in> set rs"
    then have ne: "rs \<noteq> []" by auto
    from stack_ok_max_le_last [OF ok x] have le: "r_max x \<le> r_max (last rs)" .
    from nowrap nx ne have "r_max (last rs) + 1 \<noteq> 0" by simp
    then have "1 + r_max (last rs) \<noteq> 0" by (simp add: add.commute)
    then have "unat (1 + r_max (last rs)) = Suc (unat (r_max (last rs)))" by (rule unatSuc)
    then have "r_max (last rs) < r_max (last rs) + 1"
      by (simp add: word_less_nat_alt add.commute)
    with le nx ne show "r_max x < next" by simp
  qed
  with ok r'ok nmin show ?thesis by (auto simp: stack_ok_def sorted_wrt_append)
qed

lemma stack_ok_pair:
  "stack_ok rs \<Longrightarrow> i < j \<Longrightarrow> j < length rs \<Longrightarrow> r_max (rs ! i) < name_min (r_name (rs ! j))"
  by (simp add: stack_ok_def sorted_wrt_iff_nth_less)

lemma stack_ok_nth: "stack_ok rs \<Longrightarrow> i < length rs \<Longrightarrow> reader_ok (rs ! i)"
  by (simp add: stack_ok_def)

lemma fresh_add:
  assumes ok: "stack_ok rs"
    and nx: "next = (if rs = [] then 1 else r_max (last rs) + 1)" and nowrap: "next \<noteq> 0"
  shows "formatName next next @ ''.ref'' \<notin> set (map r_name rs)"
proof
  assume "formatName next next @ ''.ref'' \<in> set (map r_name rs)"
  then obtain r where r: "r \<in> set rs" "r_name r = formatName next next @ ''.ref''" by auto
  then have ne: "rs \<noteq> []" by auto
  from r(2) have "name_min (r_name r) = next" by (simp add: name_min_formatName)
  moreover from ok r(1) have "reader_ok r" by (simp add: stack_ok_def)
  ultimately have "next \<le> r_max r" using reader_ok_min_le_max by blast
  also have "\<dots> \<le> r_max (last rs)" using stack_ok_max_le_last [OF ok r(1)] .
  also have "\<dots> < next" using nx ne nowrap word_less_succ by simp
  finally show False by simp
qed

lemma fresh_compact:
  assumes ok: "stack_ok rs" and fl: "f < l" and l: "l < length rs"
  shows "formatName (r_min (rs ! f)) (r_max (rs ! l)) @ ''.ref'' \<notin> set (map r_name rs)"
proof
  assume "formatName (r_min (rs ! f)) (r_max (rs ! l)) @ ''.ref'' \<in> set (map r_name rs)"
  then obtain j where j: "j < length rs"
    and nm: "r_name (rs ! j) = formatName (r_min (rs ! f)) (r_max (rs ! l)) @ ''.ref''"
    by (auto simp: in_set_conv_nth)
  from nm have nmin: "name_min (r_name (rs ! j)) = r_min (rs ! f)"
    and nmax: "name_max (r_name (rs ! j)) = r_max (rs ! l)"
    by (simp_all add: name_min_formatName name_max_formatName)
  have okj: "reader_ok (rs ! j)" using ok j by (rule stack_ok_nth)
  have okf: "reader_ok (rs ! f)" using ok fl l by (simp add: stack_ok_nth)
  have okl: "reader_ok (rs ! l)" using ok l by (rule stack_ok_nth)
  consider "j < f" | "f < j" | "j = f" by linarith
  then show False
  proof cases
    case 1
    from stack_ok_pair [OF ok 1] fl l have "r_max (rs ! j) < name_min (r_name (rs ! f))" by simp
    also have "\<dots> \<le> r_min (rs ! f)" using okf by (simp add: reader_ok_def)
    also have "\<dots> = name_min (r_name (rs ! j))" using nmin by simp
    also have "\<dots> \<le> r_max (rs ! j)" using okj by (rule reader_ok_min_le_max)
    finally show False by simp
  next
    case 2
    from stack_ok_pair [OF ok 2 j] have "r_max (rs ! f) < name_min (r_name (rs ! j))" .
    also have "\<dots> = r_min (rs ! f)" using nmin .
    also have "\<dots> \<le> r_max (rs ! f)" using okf by (simp add: reader_ok_def)
    finally show False by simp
  next
    case 3
    from stack_ok_pair [OF ok fl l] have "r_max (rs ! f) < name_min (r_name (rs ! l))" .
    also have "\<dots> \<le> r_max (rs ! l)" using okl by (rule reader_ok_min_le_max)
    also have "\<dots> = name_max (r_name (rs ! f))" using nmax 3 by simp
    also have "\<dots> \<le> r_max (rs ! f)" using okf by (simp add: reader_ok_def)
    finally show False by simp
  qed
qed

lemma in_set_drop_nth:
  assumes "y \<in> set (drop n xs)"
  shows "\<exists>j. n \<le> j \<and> j < length xs \<and> y = xs ! j"
proof -
  from assms obtain k where k: "k < length (drop n xs)" "y = drop n xs ! k"
    by (auto simp: in_set_conv_nth)
  then have "n \<le> n + k \<and> n + k < length xs \<and> y = xs ! (n + k)" by auto
  then show ?thesis by blast
qed

lemma in_set_take_nth:
  assumes "x \<in> set (take n xs)"
  shows "\<exists>i. i < n \<and> i < length xs \<and> x = xs ! i"
proof -
  from assms obtain k where k: "k < length (take n xs)" "x = take n xs ! k"
    by (auto simp: in_set_conv_nth)
  then have "k < n \<and> k < length xs \<and> x = xs ! k" by auto
  then show ?thesis by blast
qed

lemma stack_ok_compact:
  assumes ok: "stack_ok rs" and fl: "f < l" and l: "l < length rs"
    and nm: "r_name r' = formatName (r_min (rs ! f)) (r_max (rs ! l)) @ ''.ref''"
    and mn: "r_min r' = r_min (rs ! f)" and mx: "r_max r' = r_max (rs ! l)"
  shows "stack_ok (take f rs @ [r'] @ drop (Suc l) rs)"
proof -
  have nmin: "name_min (r_name r') = r_min (rs ! f)" and nmax: "name_max (r_name r') = r_max (rs ! l)"
    using nm by (simp_all add: name_min_formatName name_max_formatName)
  have okf: "reader_ok (rs ! f)" using ok fl l by (simp add: stack_ok_nth)
  have okl: "reader_ok (rs ! l)" using ok l by (rule stack_ok_nth)
  have "r_min (rs ! f) \<le> r_max (rs ! f)" using okf by (simp add: reader_ok_def)
  also have "\<dots> < name_min (r_name (rs ! l))" using stack_ok_pair [OF ok fl l] .
  also have "\<dots> \<le> r_max (rs ! l)" using okl by (rule reader_ok_min_le_max)
  finally have "r_min (rs ! f) \<le> r_max (rs ! l)" by simp
  then have r'ok: "reader_ok r'" using nm nmin nmax mn mx by (simp add: reader_ok_def)
  have all: "\<forall>r\<in>set rs. reader_ok r" and srt: "sorted_wrt (\<lambda>r s. r_max r < name_min (r_name s)) rs"
    using ok by (simp_all add: stack_ok_def)
  have A: "\<forall>x\<in>set (take f rs). r_max x < name_min (r_name r')"
  proof
    fix x assume x: "x \<in> set (take f rs)"
    from in_set_take_nth [OF x] obtain i where i: "i < f" "i < length rs" "x = rs ! i" by blast
    from stack_ok_pair [OF ok i(1)] fl l have "r_max (rs ! i) < name_min (r_name (rs ! f))" by simp
    also have "\<dots> \<le> r_min (rs ! f)" using okf by (simp add: reader_ok_def)
    finally show "r_max x < name_min (r_name r')" using i(3) nmin by simp
  qed
  have C: "\<forall>y\<in>set (drop (Suc l) rs). r_max r' < name_min (r_name y)"
  proof
    fix y assume y: "y \<in> set (drop (Suc l) rs)"
    from in_set_drop_nth [OF y] obtain j where j: "Suc l \<le> j" "j < length rs" "y = rs ! j" by blast
    then have "l < j" by simp
    from stack_ok_pair [OF ok this j(2)] show "r_max r' < name_min (r_name y)" using j(3) mx by simp
  qed
  have AC: "\<forall>x\<in>set (take f rs). \<forall>y\<in>set (drop (Suc l) rs). r_max x < name_min (r_name y)"
  proof (intro ballI)
    fix x y
    assume x: "x \<in> set (take f rs)" and y: "y \<in> set (drop (Suc l) rs)"
    from in_set_take_nth [OF x] obtain i where i: "i < f" "i < length rs" "x = rs ! i" by blast
    from in_set_drop_nth [OF y] obtain j where j: "Suc l \<le> j" "j < length rs" "y = rs ! j" by blast
    from i j have "i < j" using fl by simp
    from stack_ok_pair [OF ok this j(2)] show "r_max x < name_min (r_name y)" using i(3) j(3) by simp
  qed
  have "sorted_wrt (\<lambda>r s. r_max r < name_min (r_name s)) (take f rs @ [r'] @ drop (Suc l) rs)"
    using sorted_wrt_take [OF srt, of f] sorted_wrt_drop [OF srt, of "Suc l"] A C AC
    by (simp add: sorted_wrt_append)
  moreover have "\<forall>r\<in>set (take f rs @ [r'] @ drop (Suc l) rs). reader_ok r"
    using all r'ok by (auto dest: in_set_takeD in_set_dropD)
  ultimately show ?thesis by (simp add: stack_ok_def)
qed

lemma stack_ok_legal:
  assumes "stack_ok rs" and "set sub \<subseteq> set rs"
  shows "\<forall>n\<in>set (map r_name sub). n \<noteq> [] \<and> newline \<notin> set n"
proof
  fix n assume "n \<in> set (map r_name sub)"
  then obtain r where r: "r \<in> set rs" "n = r_name r" using assms(2) by auto
  with assms(1) have "reader_ok r" by (simp add: stack_ok_def)
  then have "n = formatName (name_min n) (name_max n) @ ''.ref''" using r(2) by (simp add: reader_ok_def)
  then show "n \<noteq> [] \<and> newline \<notin> set n" using formatName_legal [of "name_min n" "name_max n"] by metis
qed

subsection \<open>What a successful reload attempt returns\<close>

lemma map_of_fold_update:
  "map_of (fold (\<lambda>r cur. AList.update (r_name r) r cur) rs acc)
     = fold (\<lambda>r m. m(r_name r \<mapsto> r)) rs (map_of acc)"
  by (induction rs arbitrary: acc) (simp_all add: update_conv')

lemma fold_upd_out:
  "n \<notin> r_name ` set rs \<Longrightarrow> fold (\<lambda>(r :: Reader) m. m(r_name r \<mapsto> r)) rs m n = m n"
  by (induction rs arbitrary: m) auto

lemma fold_upd_in:
  "distinct (map r_name rs) \<Longrightarrow> r \<in> set rs \<Longrightarrow>
     fold (\<lambda>(r :: Reader) m. m(r_name r \<mapsto> r)) rs m (r_name r) = Some r"
proof (induction rs arbitrary: m)
  case Nil
  then show ?case by simp
next
  case (Cons x xs)
  let ?F = "\<lambda>(r :: Reader) (m :: string \<rightharpoonup> Reader). m(r_name r \<mapsto> r)"
  have step: "fold ?F (x # xs) m = fold ?F xs (m(r_name x \<mapsto> x))"
    by (simp only: fold_Cons comp_apply)
  show ?case
  proof (cases "r = x")
    case True
    from Cons.prems(1) have "r_name x \<notin> r_name ` set xs" by simp
    then have "fold ?F xs (m(r_name x \<mapsto> x)) (r_name x) = (m(r_name x \<mapsto> x)) (r_name x)"
      by (rule fold_upd_out)
    then show ?thesis unfolding step True by (simp only: fun_upd_same)
  next
    case False
    with Cons.prems have "distinct (map r_name xs)" "r \<in> set xs" by simp_all
    from Cons.IH [OF this] show ?thesis unfolding step .
  qed
qed

lemma cur_of_in:
  "distinct (map r_name rs) \<Longrightarrow> r \<in> set rs \<Longrightarrow> map_of (cur_of rs) (r_name r) = Some r"
  by (simp add: cur_of_def map_of_fold_update fold_upd_in)

lemma cur_of_out: "n \<notin> set (map r_name rs) \<Longrightarrow> map_of (cur_of rs) n = None"
  by (simp add: cur_of_def map_of_fold_update fold_upd_out)

lemma NewReader_opened:
  assumes "NewFileBlockSource E nm (Join dir nm) w = Inr bs" and "NewReader E bs nm w = Inr (rd, w')"
  shows "opened (fs w) dir nm rd"
  using assms
  by (auto simp: NewFileBlockSource_def NewReader_def opened_def split: option.splits node.splits)

lemma reloadOnce_loop_result:
  assumes "reloadOnce_loop E dir ns cur acc w = Inr (cur', nt, w')" and "distinct ns"
  shows "\<exists>new. nt = acc @ new \<and>
           list_all2 (\<lambda>n r. case map_of cur n of Some r0 \<Rightarrow> r = r0 | None \<Rightarrow> opened (fs w) dir n r)
             ns new"
  using assms
proof (induction ns arbitrary: cur acc w)
  case Nil
  then show ?case by simp
next
  case (Cons nm ns)
  from Cons.prems(2) have d: "distinct ns" and nin: "nm \<notin> set ns" by simp_all
  show ?case
  proof (cases "map_of cur nm")
    case (Some rd)
    with Cons.prems(1) have "reloadOnce_loop E dir ns (AList.delete nm cur) (acc @ [rd]) w = Inr (cur', nt, w')"
      by simp
    from Cons.IH [OF this d] obtain new where new: "nt = (acc @ [rd]) @ new"
      "list_all2 (\<lambda>n r. case map_of (AList.delete nm cur) n of Some r0 \<Rightarrow> r = r0
                         | None \<Rightarrow> opened (fs w) dir n r) ns new"
      by blast
    have "list_all2 (\<lambda>n r. case map_of cur n of Some r0 \<Rightarrow> r = r0
                         | None \<Rightarrow> opened (fs w) dir n r) ns new"
    proof (rule list.rel_mono_strong [OF new(2)])
      fix n r
      assume n: "n \<in> set ns"
        and p: "case map_of (AList.delete nm cur) n of Some r0 \<Rightarrow> r = r0
                | None \<Rightarrow> opened (fs w) dir n r"
      from n nin have "n \<noteq> nm" by auto
      then have "map_of (AList.delete nm cur) n = map_of cur n" by (simp add: delete_conv')
      with p show "case map_of cur n of Some r0 \<Rightarrow> r = r0 | None \<Rightarrow> opened (fs w) dir n r"
        by simp
    qed
    with new(1) Some have "nt = acc @ (rd # new) \<and>
       list_all2 (\<lambda>n r. case map_of cur n of Some r0 \<Rightarrow> r = r0 | None \<Rightarrow> opened (fs w) dir n r)
             (nm # ns) (rd # new)"
      by simp
    then show ?thesis by blast
  next
    case None
    with Cons.prems(1) obtain bs rd w1 where
      bs: "NewFileBlockSource E nm (Join dir nm) w = Inr bs" and
      nr: "NewReader E bs nm w = Inr (rd, w1)" and
      rec: "reloadOnce_loop E dir ns cur (acc @ [rd]) w1 = Inr (cur', nt, w')"
      by (auto split: sum.splits)
    from NewReader_fs [OF nr] have f: "fs w1 = fs w" .
    from Cons.IH [OF rec d] obtain new where new0: "nt = (acc @ [rd]) @ new"
      "list_all2 (\<lambda>n r. case map_of cur n of Some r0 \<Rightarrow> r = r0
                         | None \<Rightarrow> opened (fs w1) dir n r) ns new"
      by blast
    have new: "nt = (acc @ [rd]) @ new"
      "list_all2 (\<lambda>n r. case map_of cur n of Some r0 \<Rightarrow> r = r0
                         | None \<Rightarrow> opened (fs w) dir n r) ns new"
      using new0 unfolding f by simp_all
    from NewReader_opened [OF bs nr] None new have "nt = acc @ (rd # new) \<and>
       list_all2 (\<lambda>n r. case map_of cur n of Some r0 \<Rightarrow> r = r0 | None \<Rightarrow> opened (fs w) dir n r)
             (nm # ns) (rd # new)"
      by simp
    then show ?thesis by blast
  qed
qed

lemma reloadOnce_result:
  assumes "reloadOnce E names st w = (None, st', w')" and "distinct names"
  shows "list_all2 (\<lambda>n r. case map_of (cur_of (stack st)) n of Some r0 \<Rightarrow> r = r0
                          | None \<Rightarrow> opened (fs w) (reftableDir st) n r) names (stack st')"
proof -
  from assms(1) obtain cur' nt w1 where
    l: "reloadOnce_loop E (reftableDir st) names (cur_of (stack st)) [] w = Inr (cur', nt, w1)"
    and s: "stack st' = nt"
    by (auto simp: reloadOnce_def split: sum.splits prod.splits)
  from reloadOnce_loop_result [OF l assms(2)] s show ?thesis by auto
qed

lemma reloadOnce_Nil: "reloadOnce E [] st w = (e, st', w') \<Longrightarrow> stack st' = []"
  by (auto simp: reloadOnce_def)

lemma reused:
  assumes d: "distinct (map r_name rs)" and sub: "set sub \<subseteq> set rs"
    and l: "list_all2 (\<lambda>n r. case map_of (cur_of rs) n of Some r0 \<Rightarrow> r = r0 | None \<Rightarrow> Q n r)
              (map r_name sub) xs"
  shows "xs = sub"
proof (rule nth_equalityI)
  from l show len: "length xs = length sub" by (auto dest: list_all2_lengthD)
  fix i assume i: "i < length xs"
  with len sub have "sub ! i \<in> set rs" by auto
  then have "map_of (cur_of rs) (r_name (sub ! i)) = Some (sub ! i)" using d by (rule cur_of_in [rotated])
  moreover from l have "\<forall>i<length sub.
      (case map_of (cur_of rs) (map r_name sub ! i) of Some r0 \<Rightarrow> xs ! i = r0
       | None \<Rightarrow> Q (map r_name sub ! i) (xs ! i))"
    by (simp add: list_all2_conv_all_nth)
  ultimately show "xs ! i = sub ! i" using i len by auto
qed

lemma readNames_written:
  assumes legal: "\<forall>n\<in>set names. n \<noteq> [] \<and> newline \<notin> set n"
    and f: "fs w (listFile st) = Some (Bytes (JoinLines names))"
    and r: "readNames E s st w = Inr ns"
  shows "ns = [] \<or> ns = names"
proof (cases "fault E s")
  case None
  from readNames_JoinLines [OF legal f None] r show ?thesis by simp
next
  case (Some e)
  with f r show ?thesis by (auto simp: readNames_def split: if_splits)
qed

lemma NextUpdateIndex_eq:
  "NextUpdateIndex st = (if stack st = [] then 1 else r_max (last (stack st)) + 1)"
  by (simp add: NextUpdateIndex_def)

subsection \<open>A successful add keeps the invariant\<close>

lemma add_preserves:
  assumes ok: "stack_ok (stack st)" and succ: "add E write st w = (None, st', w')"
    and nowrap: "NextUpdateIndex st \<noteq> 0"
    and wr: "\<forall>wr0 wr. NewWriter E = Inr wr0 \<longrightarrow> write wr0 = Inr wr \<longrightarrow>
               minUpdateIndex wr \<le> maxUpdateIndex wr"
  shows "stack_ok (stack st')"
proof -
  let ?rs = "stack st"
  let ?next = "NextUpdateIndex st"
  let ?dest = "formatName ?next ?next @ ''.ref''"
  let ?names = "map r_name ?rs @ [?dest]"
  from add_success [OF succ] obtain wr0 wr and w4 :: world and w5 :: world where
    a: "NewWriter E = Inr wr0" "write wr0 = Inr wr" "\<not> minUpdateIndex wr < ?next"
    and f4: "fs w4 = (fs w)(Join (reftableDir st) ?dest \<mapsto> Table (table_of E wr),
                          listFile st \<mapsto> Bytes (JoinLines ?names))"
    and rl: "reload E st w4 = (None, st', w5)"
    by blast
  from wr a have mm: "minUpdateIndex wr \<le> maxUpdateIndex wr" by blast
  from reload_stack [OF rl] show ?thesis
  proof
    assume "stack st' = stack st" with ok show ?thesis by simp
  next
    assume "\<exists>names w0 w1 st1. fs w0 = fs w4 \<and> readNames E ReadList st w4 = Inr names \<and>
             reloadOnce E names st w0 = (None, st1, w1) \<and> stack st' = stack st1"
    then obtain names and w0 :: world and w1 :: world and st1 where
      f0: "fs w0 = fs w4" and rn: "readNames E ReadList st w4 = Inr names"
      and ro: "reloadOnce E names st w0 = (None, st1, w1)" and s: "stack st' = stack st1"
      by blast
    have legal: "\<forall>n\<in>set ?names. n \<noteq> [] \<and> newline \<notin> set n"
      using stack_ok_legal [OF ok subset_refl] formatName_legal [of ?next ?next] by auto
    have fl: "fs w4 (listFile st) = Some (Bytes (JoinLines ?names))" using f4 by simp
    from readNames_written [OF legal fl rn] show ?thesis
    proof
      assume "names = []"
      with ro have "stack st1 = []" by (simp add: reloadOnce_Nil)
      with s show ?thesis by simp
    next
      assume n: "names = ?names"
      have fresh: "?dest \<notin> set (map r_name ?rs)"
        using fresh_add [OF ok NextUpdateIndex_eq nowrap] .
      have d: "distinct ?names" using stack_ok_distinct [OF ok] fresh by simp
      let ?P = "\<lambda>n r. case map_of (cur_of ?rs) n of Some r0 \<Rightarrow> r = r0
                          | None \<Rightarrow> opened (fs w0) (reftableDir st) n r"
      from reloadOnce_result [OF ro [unfolded n] d] have "list_all2 ?P ?names (stack st1)" .
      then obtain xs r' where xs: "stack st1 = xs @ [r']" "list_all2 ?P (map r_name ?rs) xs"
        "?P ?dest r'"
        by (auto simp: list_all2_append1 list_all2_Cons1)
      from reused [OF stack_ok_distinct [OF ok] subset_refl xs(2)] have xs_eq: "xs = ?rs" .
      from xs(3) cur_of_out [OF fresh] have op: "opened (fs w0) (reftableDir st) ?dest r'" by simp
      then obtain t where t: "fs w0 (Join (reftableDir st) ?dest) = Some (Table t)"
        "r_name r' = ?dest" "r_min r' = tab_min t" "r_max r' = tab_max t"
        by (auto simp: opened_def)
      from t(1) f0 f4 have "t = table_of E wr" by (auto split: if_splits)
      then have lim: "r_min r' = minUpdateIndex wr" "r_max r' = maxUpdateIndex wr"
        using t(3,4) by (simp_all add: table_of_def)
      have "stack_ok (?rs @ [r'])"
        using ok t(2) NextUpdateIndex_eq nowrap
      proof (rule stack_ok_append)
        show "?next \<le> r_min r'" using a(3) lim by simp
        show "r_min r' \<le> r_max r'" using mm lim by simp
      qed
      with s xs(1) xs_eq show ?thesis by simp
    qed
  qed
qed

subsection \<open>A compaction that returns no error keeps the invariant\<close>

lemma writeCompact_limits:
  assumes "writeCompact E wr first lst st = Inr (Inr wr')"
  shows "in_range st first \<and> in_range st lst \<and>
         minUpdateIndex wr' = r_min (stack st ! nat first) \<and>
         maxUpdateIndex wr' = r_max (stack st ! nat lst)"
proof -
  let ?subtabs = "map (\<lambda>i. stack st ! nat i) [first..lst]"
  let ?wr1 = "SetLimits (r_min (stack st ! nat first)) (r_max (stack st ! nat lst)) wr"
  from assms have r: "in_range st first" "in_range st lst"
    by (auto simp: writeCompact_def split: if_splits)
  from assms obtain wr2 where
    a: "writeRefs E first (refIter E ?subtabs) ?wr1 = Inr wr2" and
    b: "writeLogs E (logIter E ?subtabs) wr2 = Inr wr'"
    by (auto simp: writeCompact_def Let_def split: if_splits option.splits sum.splits)
  from writeRefs_result [OF a] writeLogs_result [OF b] r show ?thesis
    by (auto simp: SetLimits_def)
qed

lemma compactLocked_success:
  assumes "compactLocked E first lst st w = Inr (Inr tmp, w2)"
  shows "\<exists>wr'. in_range st first \<and> in_range st lst \<and>
           minUpdateIndex wr' = r_min (stack st ! nat first) \<and>
           maxUpdateIndex wr' = r_max (stack st ! nat lst) \<and>
           fs w2 = (fs w)(tmp \<mapsto> Table (table_of E wr')) \<and>
           (\<exists>x. tmp = x @ ''.ref'')"
proof -
  let ?fn = "formatName (r_min (stack st ! nat first)) (r_max (stack st ! nat lst))"
  from assms have r: "in_range st first" "in_range st lst"
    by (auto simp: compactLocked_def split: if_splits)
  from assms r obtain rmName w1 where
    t: "TempFile E (reftableDir st) (?fn @ ''_'') ''.ref'' w = Inr (rmName, w1)"
    by (auto simp: compactLocked_def Let_def split: sum.splits)
  then have f1: "fs w1 = (fs w)(rmName \<mapsto> Bytes [])"
    and nm: "rmName = Join (reftableDir st) ((?fn @ ''_'') @ tmpSuffix E @ ''.ref'')"
    by (auto simp: TempFile_def Let_def split: if_splits option.splits)
  from assms r t obtain wr where wr: "NewWriter E = Inr wr"
    by (auto simp: compactLocked_def Let_def split: sum.splits)
  from assms r t wr obtain wr' where wc: "writeCompact E wr first lst st = Inr (Inr wr')"
    by (auto simp: compactLocked_def Let_def split: sum.splits)
  from assms r t wr wc obtain w2' where cl: "Writer_Close E rmName wr' w1 = Inr w2'"
    by (auto simp: compactLocked_def Let_def split: sum.splits)
  then have f2: "fs w2' = (fs w1)(rmName \<mapsto> Table (table_of E wr'))"
    by (auto simp: Writer_Close_def split: option.splits)
  from assms r t wr wc cl have e: "tmp = rmName" "w2 = w2'"
    by (auto simp: compactLocked_def Let_def split: option.splits)
  have "fs w2 = (fs w)(tmp \<mapsto> Table (table_of E wr'))" using f1 f2 e by simp
  moreover have "\<exists>x. tmp = x @ ''.ref''" using nm e by (auto simp: Join_def)
  ultimately show ?thesis using writeCompact_limits [OF wc] by blast
qed

lemma fs_fold_Remove: "fs (fold Remove ps w) p = (if p \<in> set ps then None else fs w p)"
  by (induction ps arbitrary: w) (auto simp: Remove_def)

lemma compactRange_merge_success:
  assumes "compactRange_merge E first lst st lockFileName dels w = Inr (ok, None, lfn, st', w')"
  shows "\<exists>wr' w8.
           in_range st first \<and> in_range st lst \<and>
           minUpdateIndex wr' = r_min (stack st ! nat first) \<and>
           maxUpdateIndex wr' = r_max (stack st ! nat lst) \<and>
           (fs w8 (listFile st) = None \<or>
            fs w8 (listFile st) = Some (Bytes (JoinLines
               (map r_name (take (nat first) (stack st)) @
                [formatName (r_min (stack st ! nat first)) (r_max (stack st ! nat lst)) @ ''.ref''] @
                map r_name (drop (nat (lst + 1)) (stack st)))))) \<and>
           (\<forall>t. fs w8 (Join (reftableDir st)
                   (formatName (r_min (stack st ! nat first)) (r_max (stack st ! nat lst)) @ ''.ref''))
                  = Some (Table t) \<longrightarrow> t = table_of E wr') \<and>
           reload E st w8 = (None, st', w')"
proof -
  let ?fn = "formatName (r_min (stack st ! nat first)) (r_max (stack st ! nat lst)) @ ''.ref''"
  let ?dest = "Join (reftableDir st) ?fn"
  let ?lock = "listFile st @ ''.lock''"
  let ?names = "map r_name (take (nat first) (stack st)) @ [?fn] @
                map r_name (drop (nat (lst + 1)) (stack st))"
  from assms obtain w1 where w1: "Remove_checked E RemoveLock lockFileName w = Inr w1"
    by (auto simp: compactRange_merge_def split: sum.splits)
  from assms w1 obtain tmp w2 where cl: "compactLocked E first lst st w1 = Inr (Inr tmp, w2)"
    by (auto simp: compactRange_merge_def split: sum.splits prod.splits)
  from compactLocked_success [OF cl] obtain wr' x where
    c: "in_range st first" "in_range st lst"
       "minUpdateIndex wr' = r_min (stack st ! nat first)"
       "maxUpdateIndex wr' = r_max (stack st ! nat lst)"
       "fs w2 = (fs w1)(tmp \<mapsto> Table (table_of E wr'))" "tmp = x @ ''.ref''"
    by blast
  from assms w1 cl obtain w3 where w3: "OpenFile_excl E ReopenLock ?lock w2 = Inr w3"
    by (auto simp: compactRange_merge_def Let_def split: sum.splits)
  then have f3: "fs w3 = (fs w2)(?lock \<mapsto> Bytes [])"
    by (auto simp: OpenFile_excl_def split: if_splits option.splits)
  have tl: "tmp \<noteq> ?lock" using c(6) ref_neq_lock by simp
  have dl: "?dest \<noteq> ?lock" using Join_ref_neq_lock by simp
  from assms w1 cl w3 obtain w4 where w4: "Rename E RenameTable tmp ?dest w3 = Inr w4"
    by (auto simp: compactRange_merge_def Let_def split: sum.splits)
  then have f4: "fs w4 ?dest = Some (Table (table_of E wr'))" and f4l: "fs w4 ?lock = fs w3 ?lock"
    using f3 c(5) tl dl by (auto simp: Rename_def split: if_splits option.splits)
  from assms w1 cl w3 w4 have wl: "fault E WriteLock = None"
    by (auto simp: compactRange_merge_def Let_def split: option.splits)
  let ?w5 = "w4\<lparr>fs := (fs w4)(?lock \<mapsto> Bytes (JoinLines ?names))\<rparr>"
  let ?w6 = "case fault E CloseLock of Some err \<Rightarrow> Remove ?dest ?w5 | None \<Rightarrow> ?w5"
  have "\<exists>w7. Rename E RenameLock ?lock (listFile st) ?w6 = Inr w7"
  proof (cases "Rename E RenameLock ?lock (listFile st) ?w6")
    case (Inl e)
    from assms show ?thesis
      unfolding compactRange_merge_def Let_def w1 cl w3 w4 wl Inl sum.case prod.case option.case
      by simp
  next
    case (Inr w7)
    then show ?thesis by blast
  qed
  then obtain w7 where w7: "Rename E RenameLock ?lock (listFile st) ?w6 = Inr w7" by blast
  have f6l: "fs ?w6 ?lock = Some (Bytes (JoinLines ?names))"
    using dl by (auto simp: Remove_def split: option.splits)
  have f6d: "fs ?w6 ?dest = None \<or> fs ?w6 ?dest = Some (Table (table_of E wr'))"
    using dl f4 by (auto simp: Remove_def split: option.splits)
  have ne: "?lock \<noteq> listFile st" by simp
  from w7 ne have f7: "fs w7 = (fs ?w6)(listFile st := fs ?w6 ?lock, ?lock := None)"
    by (auto simp: Rename_def split: if_splits option.splits)
  have f7l: "fs w7 (listFile st) = Some (Bytes (JoinLines ?names))"
    using f7 f6l ne by simp
  have f7d: "\<forall>t. fs w7 ?dest = Some (Table t) \<longrightarrow> t = table_of E wr'"
    using f7 f6d f6l dl by (auto split: if_splits)
  let ?w8 = "fold Remove dels w7"
  obtain e9 st9 w9 where r9: "reload E st ?w8 = (e9, st9, w9)" by (cases "reload E st ?w8")
  from assms have "e9 = None \<and> st9 = st' \<and> w9 = w'"
    unfolding compactRange_merge_def Let_def w1 cl w3 w4 wl w7 r9 sum.case prod.case option.case
    by simp
  with r9 have rl: "reload E st ?w8 = (None, st', w')" by simp
  have "fs ?w8 (listFile st) = None \<or> fs ?w8 (listFile st) = Some (Bytes (JoinLines ?names))"
    using f7l by (simp add: fs_fold_Remove)
  moreover have "\<forall>t. fs ?w8 ?dest = Some (Table t) \<longrightarrow> t = table_of E wr'"
    using f7d by (simp add: fs_fold_Remove)
  ultimately show ?thesis using c(1-4) rl by blast
qed

lemma compactRange_locked_success:
  assumes "compactRange_locked E first lst st lockFileName w = Inr (ok, None, lfn, st', w')"
  shows "st' = st \<or>
         (\<exists>dels w1 lfn' w2.
            compactRange_merge E first lst st lockFileName dels w1 = Inr (ok, None, lfn', st', w2))"
proof (cases "UpToDate E st w")
  case (Inl e)
  with assms show ?thesis by (simp add: compactRange_locked_def)
next
  case (Inr up)
  show ?thesis
  proof (cases up)
    case False
    with Inr assms show ?thesis by (simp add: compactRange_locked_def)
  next
    case True
    show ?thesis
    proof (cases "lockSubtables E st [first..lst] [] [] w")
      case LockPanic
      with Inr True assms show ?thesis by (simp add: compactRange_locked_def)
    next
      case (LockFail e locks w1)
      with Inr True assms show ?thesis by (simp add: compactRange_locked_def)
    next
      case (LockOk locks dels w1)
      show ?thesis
      proof (cases "compactRange_merge E first lst st lockFileName dels w1")
        case (Inl p)
        with LockOk Inr True assms show ?thesis by (simp add: compactRange_locked_def)
      next
        case mr: (Inr res)
        obtain ok' e' lfn' st2 w2 where res: "res = (ok', e', lfn', st2, w2)" by (cases res)
        with mr LockOk Inr True assms have "ok' = ok \<and> e' = None \<and> st2 = st'"
          by (simp add: compactRange_locked_def)
        with mr res show ?thesis by blast
      qed
    qed
  qed
qed

lemma compactRange_success:
  assumes "compactRange E first lst st w = Inr (ok, None, st', w')"
  shows "stack st' = stack st \<or>
         (first < lst \<and>
          (\<exists>st1 lfn dels w1 lfn' w2.
             stack st1 = stack st \<and> listFile st1 = listFile st \<and> reftableDir st1 = reftableDir st \<and>
             compactRange_merge E first lst st1 lfn dels w1 = Inr (ok, None, lfn', st', w2)))"
proof (cases "first \<ge> lst")
  case True
  with assms show ?thesis by (simp add: compactRange_def)
next
  case False
  let ?st1 = "st\<lparr>Stats := (Stats st)\<lparr>Attempts := Attempts (Stats st) + 1\<rparr>\<rparr>"
  let ?lock = "listFile st @ ''.lock''"
  have "st' = ?st1 \<or>
        (\<exists>w1 lfn w2. compactRange_locked E first lst ?st1 ?lock w1 = Inr (ok, None, lfn, st', w2))"
  proof (cases "OpenFile_excl E OpenLock ?lock w")
    case (Inl e)
    show ?thesis
    proof (cases "IsExist e")
      case True
      with Inl False assms show ?thesis by (simp add: compactRange_def Let_def)
    next
      case ne: False
      show ?thesis
      proof (cases "compactRange_locked E first lst ?st1 ?lock w")
        case l: (Inl p)
        with ne Inl False assms show ?thesis by (simp add: compactRange_def Let_def)
      next
        case r: (Inr res)
        obtain ok' e' lfn' st2 w2 where res: "res = (ok', e', lfn', st2, w2)" by (cases res)
        with r ne Inl False assms have "ok' = ok \<and> e' = None \<and> st2 = st'"
          by (simp add: compactRange_def Let_def)
        with r res show ?thesis by blast
      qed
    qed
  next
    case (Inr w1)
    show ?thesis
    proof (cases "compactRange_locked E first lst ?st1 ?lock w1")
      case l: (Inl p)
      with Inr False assms show ?thesis by (simp add: compactRange_def Let_def)
    next
      case r: (Inr res)
      obtain ok' e' lfn' st2 w2 where res: "res = (ok', e', lfn', st2, w2)" by (cases res)
      with r Inr False assms have "ok' = ok \<and> e' = None \<and> st2 = st'"
        by (simp add: compactRange_def Let_def)
      with r res show ?thesis by blast
    qed
  qed
  then consider "st' = ?st1"
    | w1 lfn w2 where "compactRange_locked E first lst ?st1 ?lock w1 = Inr (ok, None, lfn, st', w2)"
    by blast
  then show ?thesis
  proof cases
    case 1
    then show ?thesis by simp
  next
    case 2
    from compactRange_locked_success [OF 2] show ?thesis
    proof
      assume "st' = ?st1" then show ?thesis by simp
    next
      assume "\<exists>dels w1 lfn' w2.
            compactRange_merge E first lst ?st1 ?lock dels w1 = Inr (ok, None, lfn', st', w2)"
      then obtain dels w1' lfn' w2' where
        "compactRange_merge E first lst ?st1 ?lock dels w1' = Inr (ok, None, lfn', st', w2')" by blast
      then have "stack ?st1 = stack st \<and> listFile ?st1 = listFile st \<and>
          reftableDir ?st1 = reftableDir st \<and>
          compactRange_merge E first lst ?st1 ?lock dels w1' = Inr (ok, None, lfn', st', w2')"
        by simp
      then have "\<exists>st1 lfn dels w1 lfn' w2.
             stack st1 = stack st \<and> listFile st1 = listFile st \<and> reftableDir st1 = reftableDir st \<and>
             compactRange_merge E first lst st1 lfn dels w1 = Inr (ok, None, lfn', st', w2)"
        by blast
      with False show ?thesis by simp
    qed
  qed
qed

lemma distinct_take_drop:
  assumes "distinct xs" and "f \<le> n"
  shows "distinct (take f xs @ drop n xs)"
  using assms by (simp add: set_take_disj_set_drop_if_distinct)

lemma compactRange_preserves:
  assumes ok: "stack_ok (stack st)"
    and succ: "compactRange E first lst st w = Inr (okb, None, st', w')"
  shows "stack_ok (stack st')"
  using compactRange_success [OF succ]
proof
  assume "stack st' = stack st" with ok show ?thesis by simp
next
  assume "first < lst \<and>
          (\<exists>st1 lfn dels w1 lfn' w2.
             stack st1 = stack st \<and> listFile st1 = listFile st \<and> reftableDir st1 = reftableDir st \<and>
             compactRange_merge E first lst st1 lfn dels w1 = Inr (okb, None, lfn', st', w2))"
  then obtain st1 lfn dels and w1 :: world and lfn' and w2 :: world where fl: "first < lst"
    and st1: "stack st1 = stack st" "listFile st1 = listFile st" "reftableDir st1 = reftableDir st"
    and m: "compactRange_merge E first lst st1 lfn dels w1 = Inr (okb, None, lfn', st', w2)"
    by blast
  let ?rs = "stack st"
  let ?f = "nat first" and ?l = "nat lst"
  let ?fn = "formatName (r_min (?rs ! ?f)) (r_max (?rs ! ?l)) @ ''.ref''"
  let ?names = "map r_name (take ?f ?rs) @ [?fn] @ map r_name (drop (Suc ?l) ?rs)"
  from compactRange_merge_success [OF m] st1 obtain wr' and w8 :: world where
    r: "in_range st1 first" "in_range st1 lst"
    and lim: "minUpdateIndex wr' = r_min (?rs ! ?f)" "maxUpdateIndex wr' = r_max (?rs ! ?l)"
    and fl8: "fs w8 (listFile st1) = None \<or>
              fs w8 (listFile st1) = Some (Bytes (JoinLines
                 (map r_name (take ?f ?rs) @ [?fn] @ map r_name (drop (nat (lst + 1)) ?rs))))"
    and fd8: "\<forall>t. fs w8 (Join (reftableDir st1) ?fn) = Some (Table t) \<longrightarrow> t = table_of E wr'"
    and rl: "reload E st1 w8 = (None, st', w2)"
    by auto
  from r st1 fl have idx: "?f < ?l" "?l < length ?rs" and suc: "nat (lst + 1) = Suc ?l"
    by (auto simp: in_range_def)
  from reload_stack [OF rl] show ?thesis
  proof
    assume "stack st' = stack st1" with ok st1 show ?thesis by simp
  next
    assume "\<exists>names w0 w1 st2. fs w0 = fs w8 \<and> readNames E ReadList st1 w8 = Inr names \<and>
             reloadOnce E names st1 w0 = (None, st2, w1) \<and> stack st' = stack st2"
    then obtain names and w0 :: world and w9 :: world and st2 where
      f0: "fs w0 = fs w8" and rn: "readNames E ReadList st1 w8 = Inr names"
      and ro: "reloadOnce E names st1 w0 = (None, st2, w9)" and s: "stack st' = stack st2"
      by blast
    have legal: "\<forall>n\<in>set ?names. n \<noteq> [] \<and> newline \<notin> set n"
      using stack_ok_legal [OF ok, of "take ?f ?rs"] stack_ok_legal [OF ok, of "drop (Suc ?l) ?rs"]
        formatName_legal [of "r_min (?rs ! ?f)" "r_max (?rs ! ?l)"]
      by (auto dest: in_set_takeD in_set_dropD)
    have "names = [] \<or> names = ?names"
      using fl8
    proof
      assume "fs w8 (listFile st1) = None"
      with rn show ?thesis by (simp add: readNames_def)
    next
      assume "fs w8 (listFile st1) = Some (Bytes (JoinLines
                 (map r_name (take ?f ?rs) @ [?fn] @ map r_name (drop (nat (lst + 1)) ?rs))))"
      then have "fs w8 (listFile st1) = Some (Bytes (JoinLines ?names))" using suc by simp
      from readNames_written [OF legal this rn] show ?thesis .
    qed
    then show ?thesis
    proof
      assume "names = []"
      with ro have "stack st2 = []" by (simp add: reloadOnce_Nil)
      with s show ?thesis by simp
    next
      assume n: "names = ?names"
      have dn: "distinct (map r_name ?rs)" using ok by (rule stack_ok_distinct)
      have fresh: "?fn \<notin> set (map r_name ?rs)" using fresh_compact [OF ok idx] .
      have "?f \<le> Suc ?l" using idx(1) by linarith
      with dn have "distinct (take ?f (map r_name ?rs) @ drop (Suc ?l) (map r_name ?rs))"
        by (rule distinct_take_drop)
      then have d0: "distinct (map r_name (take ?f ?rs) @ map r_name (drop (Suc ?l) ?rs))"
        by (simp add: take_map drop_map)
      have "?fn \<notin> set (map r_name (take ?f ?rs))" "?fn \<notin> set (map r_name (drop (Suc ?l) ?rs))"
        using fresh by (auto dest: in_set_takeD in_set_dropD)
      with d0 have d: "distinct ?names" by auto
      let ?P = "\<lambda>n r. case map_of (cur_of ?rs) n of Some r0 \<Rightarrow> r = r0
                          | None \<Rightarrow> opened (fs w0) (reftableDir st1) n r"
      from reloadOnce_result [OF ro [unfolded n] d] st1 have "list_all2 ?P ?names (stack st2)"
        by simp
      then obtain xs r' ys where xs: "stack st2 = xs @ [r'] @ ys"
        "list_all2 ?P (map r_name (take ?f ?rs)) xs" "?P ?fn r'"
        "list_all2 ?P (map r_name (drop (Suc ?l) ?rs)) ys"
        by (auto simp: list_all2_append1 list_all2_Cons1)
      have xs_eq: "xs = take ?f ?rs"
        using dn _ xs(2) by (rule reused) (auto dest: in_set_takeD)
      have ys_eq: "ys = drop (Suc ?l) ?rs"
        using dn _ xs(4) by (rule reused) (auto dest: in_set_dropD)
      from xs(3) cur_of_out [OF fresh] have "opened (fs w0) (reftableDir st1) ?fn r'" by simp
      then obtain t where t: "fs w0 (Join (reftableDir st1) ?fn) = Some (Table t)"
        "r_name r' = ?fn" "r_min r' = tab_min t" "r_max r' = tab_max t"
        by (auto simp: opened_def)
      from t(1) f0 fd8 have "t = table_of E wr'" by simp
      then have "r_min r' = r_min (?rs ! ?f)" "r_max r' = r_max (?rs ! ?l)"
        using t(3,4) lim by (simp_all add: table_of_def)
      with ok idx t(2) have "stack_ok (take ?f ?rs @ [r'] @ drop (Suc ?l) ?rs)"
        by (rule stack_ok_compact)
      with s xs(1) xs_eq ys_eq show ?thesis by simp
    qed
  qed
qed

lemma compactRangeStats_preserves:
  assumes ok: "stack_ok (stack st)"
    and succ: "compactRangeStats E first lst st w = Inr (okb, None, st', w')"
  shows "stack_ok (stack st')"
proof (cases "compactRange E first lst st w")
  case (Inl p)
  with succ show ?thesis by (simp add: compactRangeStats_def)
next
  case (Inr res)
  obtain ok' e' st2 w2 where res: "res = (ok', e', st2, w2)" by (cases res)
  with Inr succ have e: "e' = None" and s: "stack st' = stack st2"
    by (auto simp: compactRangeStats_def split: if_splits)
  from Inr res e have "compactRange E first lst st w = Inr (ok', None, st2, w2)" by simp
  from compactRange_preserves [OF ok this] s show ?thesis by simp
qed

lemma AutoCompact_preserves:
  assumes ok: "stack_ok (stack st)" and succ: "AutoCompact E st w = Inr (None, st', w')"
  shows "stack_ok (stack st')"
proof (cases "suggestCompactionSegment (tableSizesForCompaction st)")
  case (Inl p)
  with succ show ?thesis by (simp add: AutoCompact_def)
next
  case (Inr sg)
  show ?thesis
  proof (cases sg)
    case None
    with Inr succ ok show ?thesis by (simp add: AutoCompact_def)
  next
    case (Some seg)
    show ?thesis
    proof (cases "compactRangeStats E (seg_start seg) (seg_end seg - 1) st w")
      case l: (Inl p)
      with Some Inr succ show ?thesis by (simp add: AutoCompact_def)
    next
      case r: (Inr res)
      obtain ok' e' st2 w2 where res: "res = (ok', e', st2, w2)" by (cases res)
      with r Some Inr succ have "e' = None" "st2 = st'" by (simp_all add: AutoCompact_def)
      with r res have "compactRangeStats E (seg_start seg) (seg_end seg - 1) st w = Inr (ok', None, st', w2)"
        by simp
      from compactRangeStats_preserves [OF ok this] show ?thesis .
    qed
  qed
qed

lemma CompactAll_preserves:
  assumes ok: "stack_ok (stack st)" and succ: "CompactAll E st w = Inr (None, st', w')"
  shows "stack_ok (stack st')"
proof (cases "compactRange E 0 (int (length (stack st)) - 1) st w")
  case (Inl p)
  with succ show ?thesis by (simp add: CompactAll_def)
next
  case (Inr res)
  obtain ok' e' st2 w2 where res: "res = (ok', e', st2, w2)" by (cases res)
  with Inr succ have "e' = None" "st2 = st'" by (simp_all add: CompactAll_def)
  with Inr res have "compactRange E 0 (int (length (stack st)) - 1) st w = Inr (ok', None, st', w2)"
    by simp
  from compactRange_preserves [OF ok this] show ?thesis .
qed

lemma Add_preserves:
  assumes ok: "stack_ok (stack st)" and succ: "Add E write st w = Inr (None, st', w')"
    and nowrap: "NextUpdateIndex st \<noteq> 0"
    and wr: "\<forall>wr0 wr. NewWriter E = Inr wr0 \<longrightarrow> write wr0 = Inr wr \<longrightarrow>
               minUpdateIndex wr \<le> maxUpdateIndex wr"
  shows "stack_ok (stack st')"
proof -
  obtain e1 st1 w1 where a: "add E write st w = (e1, st1, w1)" by (cases "add E write st w")
  show ?thesis
  proof (cases e1)
    case None
    with a succ have ac: "AutoCompact E st1 w1 = Inr (None, st', w')" by (simp add: Add_def)
    from a None have "add E write st w = (None, st1, w1)" by simp
    from add_preserves [OF ok this nowrap wr] have "stack_ok (stack st1)" .
    from AutoCompact_preserves [OF this ac] show ?thesis .
  next
    case (Some e)
    with a succ show ?thesis by (auto simp: Add_def split: if_splits prod.splits)
  qed
qed

lemma reachable_stack_ok: "reachable st w \<Longrightarrow> stack_ok (stack st)"
proof (induction rule: reachable.induct)
  case (reach_NewStack E dir lf w st w')
  then show ?case by simp
next
  case (reach_Add st w E wcb st' w')
  then show ?case using Add_preserves by blast
next
  case (reach_AutoCompact st w E st' w')
  then show ?case using AutoCompact_preserves by blast
next
  case (reach_CompactAll st w E st' w')
  then show ?case using CompactAll_preserves by blast
next
  case (reach_compactRange st w E first lst ok st' w')
  then show ?case using compactRange_preserves by blast
qed

subsection \<open>The name of an added table\<close>

text \<open>
  C2, as the code has it. Every successful \<^verbatim>\<open>add\<close> leaves the file system as it was
  but for two files: the manifest, now the old names followed by the new one, and the new
  table, which holds what the Writer wrote (its range \<open>[min, max]\<close> starts at
  \<^verbatim>\<open>next\<close> or above) and is named \<open>formatName next next @ ''.ref''\<close>, where
  \<^verbatim>\<open>next\<close> is \<^verbatim>\<open>NextUpdateIndex()\<close> computed before the write callback ran. The name
  is not taken from the Writer.
\<close>

theorem add_names_table_by_next:
  assumes "add E write st w = (None, st', w')"
  shows "\<exists>wr0 wr.
           NewWriter E = Inr wr0 \<and> write wr0 = Inr wr \<and>
           NextUpdateIndex st \<le> minUpdateIndex wr \<and>
           fs w' = (fs w)(Join (reftableDir st)
                            (formatName (NextUpdateIndex st) (NextUpdateIndex st) @ ''.ref'')
                              \<mapsto> Table (table_of E wr),
                          listFile st \<mapsto> Bytes (JoinLines (map r_name (stack st) @
                            [formatName (NextUpdateIndex st) (NextUpdateIndex st) @ ''.ref''])))"
proof -
  from add_success [OF assms] obtain wr0 wr and w4 :: world where
    a: "NewWriter E = Inr wr0" "write wr0 = Inr wr" "\<not> minUpdateIndex wr < NextUpdateIndex st"
    "fs w4 = (fs w)(Join (reftableDir st)
                            (formatName (NextUpdateIndex st) (NextUpdateIndex st) @ ''.ref'')
                              \<mapsto> Table (table_of E wr),
                          listFile st \<mapsto> Bytes (JoinLines (map r_name (stack st) @
                            [formatName (NextUpdateIndex st) (NextUpdateIndex st) @ ''.ref''])))"
    "fs w' = fs w4"
    by blast
  from a(3) have "NextUpdateIndex st \<le> minUpdateIndex wr" by simp
  with a show ?thesis by auto
qed

text \<open>The theorem at the opened empty stack and a Writer that covers \<open>[1, 2]\<close>.\<close>

theorem add_names_table_by_next_witness:
  "add env_tiers (write_limits 1 2) opened_stack opened_world
     = (None, fst (snd run_add_1_2), snd (snd run_add_1_2)) \<and>
   NextUpdateIndex opened_stack = 1 \<and>
   fs (snd (snd run_add_1_2)) (Join ''reftable'' (formatName 1 1 @ ''.ref''))
     = Some (Table \<lparr>tab_min = 1, tab_max = 2, tab_refs = [], tab_logs = [], tab_size = 300\<rparr>) \<and>
   fs (snd (snd run_add_1_2)) ''tables.list'' = Some (Bytes (formatName 1 1 @ ''.ref''))"
proof -
  have e: "fst run_add_1_2 = None" by code_simp
  have h: "add env_tiers (write_limits 1 2) opened_stack opened_world
     = (None, fst (snd run_add_1_2), snd (snd run_add_1_2))"
    using e by (cases run_add_1_2) (simp add: run_add_1_2_def)
  have n: "NextUpdateIndex opened_stack = 1" by code_simp
  have f: "fs (snd (snd run_add_1_2)) (Join ''reftable'' (formatName 1 1 @ ''.ref''))
     = Some (Table \<lparr>tab_min = 1, tab_max = 2, tab_refs = [], tab_logs = [], tab_size = 300\<rparr>)"
    by code_simp
  have m: "fs (snd (snd run_add_1_2)) ''tables.list'' = Some (Bytes (formatName 1 1 @ ''.ref''))"
    by code_simp
  show ?thesis using add_names_table_by_next [OF h] h n f m by simp
qed

text \<open>
  C2, as the spec states it, fails: a Writer that covers \<open>[1, 2]\<close> on the empty stack
  gives a table named \<^verbatim>\<open>000000000001-000000000001.ref\<close>, and no file
  \<^verbatim>\<open>000000000001-000000000002.ref\<close>.
\<close>

theorem add_name_counterexample:
  "fst run_add_1_2 = None \<and>
   fs (snd (snd run_add_1_2)) ''reftable/000000000001-000000000001.ref''
     = Some (Table \<lparr>tab_min = 1, tab_max = 2, tab_refs = [], tab_logs = [], tab_size = 300\<rparr>) \<and>
   fs (snd (snd run_add_1_2)) ''reftable/000000000001-000000000002.ref'' = None \<and>
   fs (snd (snd run_add_1_2)) ''tables.list'' = Some (Bytes ''000000000001-000000000001.ref'') \<and>
   formatName 1 2 @ ''.ref'' = ''000000000001-000000000002.ref''"
  by code_simp

subsection \<open>The temporary file of an aborted add\<close>

text \<open>
  C3 fails on the code. When the write callback returns an error, \<^verbatim>\<open>Add\<close> returns it,
  the manifest is untouched and the lock file is gone, but the temporary table file is
  still in the directory: the deferred \<^verbatim>\<open>os.Remove(f.Name())\<close> names the lock file
  \<^verbatim>\<open>f\<close>, not the temporary file \<^verbatim>\<open>tab\<close>.
\<close>

theorem Add_abort_leaves_temporary_file:
  "case run_abort of
     Inl p \<Rightarrow> False
   | Inr (err, st, w) \<Rightarrow>
       err = Some (ErrOther ''abort'') \<and>
       fs w ''reftable/000000000001-000000000001123456.ref'' = Some (Bytes []) \<and>
       fs w ''tables.list.lock'' = None \<and> fs w ''tables.list'' = None \<and> stack st = []"
  by code_simp

subsection \<open>The manifest after a failed compaction\<close>

text \<open>
  C4 fails on the code. With two tables on disk and listed in the manifest,
  \<^verbatim>\<open>compactRange(0, 1)\<close> in which \<^verbatim>\<open>lockFile.Close()\<close> fails removes the new table
  and then goes on (the branch has no \<^verbatim>\<open>return\<close>): it installs the manifest that
  names the new table, deletes the two old tables, and returns the reload's error. The
  manifest then lists a file that is not on disk.
\<close>

theorem compactRange_close_failure_dangling_manifest:
  "fs (world_of run_1_2) ''tables.list''
     = Some (Bytes (''000000000001-000000000001.ref'' @ [newline] @ ''000000000002-000000000002.ref'')) \<and>
   fs (world_of run_1_2) ''reftable/000000000001-000000000001.ref'' \<noteq> None \<and>
   fs (world_of run_1_2) ''reftable/000000000002-000000000002.ref'' \<noteq> None \<and>
   (case run_compact_close_fails of
      Inl p \<Rightarrow> False
    | Inr (ok, err, st, w) \<Rightarrow>
        ok \<and> err = Some ErrNotExist \<and>
        fs w ''tables.list'' = Some (Bytes ''000000000001-000000000002.ref'') \<and>
        fs w ''reftable/000000000001-000000000002.ref'' = None \<and>
        fs w ''reftable/000000000001-000000000001.ref'' = None \<and>
        fs w ''reftable/000000000002-000000000002.ref'' = None)"
  by code_simp

subsection \<open>Readers after a failed reload attempt\<close>

text \<open>
  C5 fails on the code. A reload attempt over the names of the two open tables followed
  by the name of a missing file returns the error and leaves \<^verbatim>\<open>st.stack\<close> as it was,
  but the deferred function has closed the two Readers of \<^verbatim>\<open>st.stack\<close>: the reused
  Readers are appended to \<^verbatim>\<open>newTables\<close> like the freshly opened ones.
\<close>

theorem reloadOnce_failure_closes_reused_readers:
  "case run_reload_missing of
     (err, st, w) \<Rightarrow>
       err = Some ErrNotExist \<and> stack st = stack (st_of run_1_2) \<and>
       map r_id (stack st) = [0, 1] \<and>
       0 \<notin> closed (world_of run_1_2) \<and> 1 \<notin> closed (world_of run_1_2) \<and>
       0 \<in> closed w \<and> 1 \<in> closed w"
  by code_simp

subsection \<open>Update-index intervals of the stack\<close>

text \<open>
  C7, as the code has it. Take a stack that \<^verbatim>\<open>NewStack\<close> returns, over any directory,
  in which every table is named \<^verbatim>\<open>formatName(a, b) + ".ref"\<close> with \<open>a\<close> at most its
  minimum, its minimum at most its maximum and \<open>b\<close> at most its maximum, and in
  which every table's \<open>a\<close> is above the maximum of every table before it (the empty
  stack is one). In every state reached from it by \<^verbatim>\<open>Add\<close>s and compactions that
  return no error, where no \<^verbatim>\<open>Add\<close> is made once \<^verbatim>\<open>NextUpdateIndex\<close> has wrapped to 0
  and every Writer's range has its minimum at most its maximum: each reader's maximum is
  below the next reader's minimum; \<^verbatim>\<open>NextUpdateIndex\<close> is 1 on the empty stack and the
  last reader's maximum plus 1 (in \<^verbatim>\<open>uint64\<close>) otherwise; and unless that has wrapped to
  0 it is above the maximum of every reader, so that the next table starts above all
  existing intervals.
\<close>

theorem reachable_intervals_increasing:
  assumes "reachable st w"
  shows "(\<forall>i. Suc i < length (stack st) \<longrightarrow> r_max (stack st ! i) < r_min (stack st ! Suc i)) \<and>
         NextUpdateIndex st = (if stack st = [] then 1 else r_max (last (stack st)) + 1) \<and>
         (NextUpdateIndex st \<noteq> 0 \<longrightarrow> (\<forall>r\<in>set (stack st). r_max r < NextUpdateIndex st))"
proof -
  from assms have ok: "stack_ok (stack st)" by (rule reachable_stack_ok)
  have "\<forall>i. Suc i < length (stack st) \<longrightarrow> r_max (stack st ! i) < r_min (stack st ! Suc i)"
    using stack_ok_adjacent [OF ok] by blast
  moreover have nx: "NextUpdateIndex st = (if stack st = [] then 1 else r_max (last (stack st)) + 1)"
    by (rule NextUpdateIndex_eq)
  moreover have "NextUpdateIndex st \<noteq> 0 \<longrightarrow> (\<forall>r\<in>set (stack st). r_max r < NextUpdateIndex st)"
  proof (intro impI ballI)
    fix r assume nz: "NextUpdateIndex st \<noteq> 0" and r: "r \<in> set (stack st)"
    then have ne: "stack st \<noteq> []" by auto
    from stack_ok_max_le_last [OF ok r] have "r_max r \<le> r_max (last (stack st))" .
    also have "\<dots> < r_max (last (stack st)) + 1" using nz nx ne word_less_succ by simp
    finally show "r_max r < NextUpdateIndex st" using nx ne by simp
  qed
  ultimately show ?thesis by blast
qed

lemma succeeded_eq: "succeeded r \<Longrightarrow> r = Inr (None, st_of r, world_of r)"
  by (cases r) (auto simp: succeeded_def st_of_def world_of_def)

lemma write_limits_ordered:
  "mn \<le> mx \<Longrightarrow>
   \<forall>wr0 wr. NewWriter E = Inr wr0 \<longrightarrow> write_limits mn mx wr0 = Inr wr \<longrightarrow>
     minUpdateIndex wr \<le> maxUpdateIndex wr"
  by (auto simp: write_limits_def SetLimits_def)

lemma NewStack_eq: "\<not> isl (fst (NewStack E dir lf w)) \<Longrightarrow>
   NewStack E dir lf w = (Inr (projr (fst (NewStack E dir lf w))), snd (NewStack E dir lf w))"
  by (cases "NewStack E dir lf w"; cases "fst (NewStack E dir lf w)") simp_all

text \<open>
  The theorem at the state two \<^verbatim>\<open>Add\<close>s at the update indices 1 and 2 leave on the stack
  opened over the empty directory; at the stack \<^verbatim>\<open>NewStack\<close> then opens over the
  directory they wrote; and at the state an \<^verbatim>\<open>Add\<close> at the update index 3 leaves on that
  stack, which compacts the three tables into one.
\<close>

theorem reachable_intervals_increasing_witness:
  "reachable (st_of run_1_2) (world_of run_1_2) \<and>
   ranges (st_of run_1_2) = [(1, 1), (2, 2)] \<and>
   r_max (stack (st_of run_1_2) ! 0) < r_min (stack (st_of run_1_2) ! Suc 0) \<and>
   NextUpdateIndex (st_of run_1_2) = 3 \<and>
   reachable reopened_stack reopened_world \<and>
   ranges reopened_stack = [(1, 1), (2, 2)] \<and>
   r_max (stack reopened_stack ! 0) < r_min (stack reopened_stack ! Suc 0) \<and>
   reachable (st_of run_reopened_3) (world_of run_reopened_3) \<and>
   ranges (st_of run_reopened_3) = [(1, 3)] \<and>
   r_max (last (stack (st_of run_reopened_3))) < 4"
proof -
  have n: "\<not> isl (fst (NewStack env_tiers ''reftable'' ''tables.list'' fresh_world))"
    and e: "stack_ok (stack opened_stack)"
    by code_simp+
  have "NewStack env_tiers ''reftable'' ''tables.list'' fresh_world = (Inr opened_stack, opened_world)"
    using NewStack_eq [OF n] by (simp add: opened_stack_def opened_world_def)
  then have r0: "reachable opened_stack opened_world" using e by (rule reach_NewStack)
  have s: "succeeded run_1" "succeeded run_1_2" by code_simp+
  have nx: "NextUpdateIndex opened_stack \<noteq> 0" "NextUpdateIndex (st_of run_1) \<noteq> 0" by code_simp+
  have a1: "Add env_tiers (write_limits 1 1) opened_stack opened_world
              = Inr (None, st_of run_1, world_of run_1)"
    using succeeded_eq [OF s(1)] by (simp add: run_1_def first_Add_def)
  have a2: "Add env_tiers (write_limits 2 2) (st_of run_1) (world_of run_1)
              = Inr (None, st_of run_1_2, world_of run_1_2)"
    using succeeded_eq [OF s(2)] by (simp add: run_1_2_def then_Add_def)
  have r1: "reachable (st_of run_1) (world_of run_1)"
    using r0 a1 nx(1) by (rule reach_Add) (rule write_limits_ordered, simp)
  have r2: "reachable (st_of run_1_2) (world_of run_1_2)"
    using r1 a2 nx(2) by (rule reach_Add) (rule write_limits_ordered, simp)
  have rg: "ranges (st_of run_1_2) = [(1, 1), (2, 2)]" by code_simp
  have nxt: "NextUpdateIndex (st_of run_1_2) = 3" by code_simp
  have len: "Suc 0 < length (stack (st_of run_1_2))" by code_simp
  from reachable_intervals_increasing [OF r2] len
  have adj: "r_max (stack (st_of run_1_2) ! 0) < r_min (stack (st_of run_1_2) ! Suc 0)" by blast
  have n': "\<not> isl (fst (NewStack env_tiers ''reftable'' ''tables.list'' (world_of run_1_2)))"
    and e': "stack_ok (stack reopened_stack)"
    by code_simp+
  have "NewStack env_tiers ''reftable'' ''tables.list'' (world_of run_1_2)
          = (Inr reopened_stack, reopened_world)"
    using NewStack_eq [OF n'] by (simp add: reopened_stack_def reopened_world_def)
  then have r3: "reachable reopened_stack reopened_world" using e' by (rule reach_NewStack)
  have rg': "ranges reopened_stack = [(1, 1), (2, 2)]" by code_simp
  have len': "Suc 0 < length (stack reopened_stack)" by code_simp
  from reachable_intervals_increasing [OF r3] len'
  have adj': "r_max (stack reopened_stack ! 0) < r_min (stack reopened_stack ! Suc 0)" by blast
  have s3: "succeeded run_reopened_3" by code_simp
  have nx3: "NextUpdateIndex reopened_stack \<noteq> 0" by code_simp
  have a3: "Add env_tiers (write_limits 3 3) reopened_stack reopened_world
              = Inr (None, st_of run_reopened_3, world_of run_reopened_3)"
    using succeeded_eq [OF s3] by (simp add: run_reopened_3_def)
  have r4: "reachable (st_of run_reopened_3) (world_of run_reopened_3)"
    using r3 a3 nx3 by (rule reach_Add) (rule write_limits_ordered, simp)
  have rg3: "ranges (st_of run_reopened_3) = [(1, 3)]" by code_simp
  have nxt3: "NextUpdateIndex (st_of run_reopened_3) = 4" by code_simp
  have ne3: "stack (st_of run_reopened_3) \<noteq> []" by code_simp
  from reachable_intervals_increasing [OF r4] nxt3
  have "\<forall>r\<in>set (stack (st_of run_reopened_3)). r_max r < 4" by simp
  with ne3 have above: "r_max (last (stack (st_of run_reopened_3))) < 4" by simp
  from r2 rg adj nxt r3 rg' adj' r4 rg3 above show ?thesis by blast
qed

text \<open>
  C7, as the spec states it, fails in four ways. A Writer that covers \<open>[1, 2^64 - 1]\<close>
  makes \<^verbatim>\<open>NextUpdateIndex\<close> wrap to 0, and the next \<^verbatim>\<open>Add\<close> may start at 0, below
  the table before it. A Writer whose limits are 5 and 0 makes the second \<^verbatim>\<open>Add\<close>
  reuse the first table's name; after the third \<^verbatim>\<open>Add\<close> the stack holds the table of
  range \<open>[1, 7]\<close> twice. \<^verbatim>\<open>NewStack\<close> over a directory whose manifest lists the table
  of range \<open>[2, 2]\<close> before that of range \<open>[1, 1]\<close> returns them in that order. And over
  a directory whose one table covers \<open>[1, 1]\<close> under the name of the range
  \<open>[2, 2]\<close>, \<^verbatim>\<open>NewStack\<close> returns a stack of one interval, the \<^verbatim>\<open>Add\<close> of the range
  \<open>[2, 2]\<close> replaces that table's file, and after the \<^verbatim>\<open>Add\<close> of the range \<open>[3, 3]\<close>
  the stack holds the table of range \<open>[2, 2]\<close> twice.
\<close>

theorem stack_intervals_counterexample:
  "succeeded run_wrap_1 \<and> succeeded run_wrap_2 \<and>
   NextUpdateIndex (st_of run_wrap_1) = 0 \<and>
   ranges (st_of run_wrap_2) = [(1, 18446744073709551615), (0, 0)] \<and>
   \<not> r_max (stack (st_of run_wrap_2) ! 0) < r_min (stack (st_of run_wrap_2) ! 1) \<and>
   succeeded run_crossed_1 \<and> succeeded run_crossed_2 \<and> succeeded run_crossed_3 \<and>
   ranges (st_of run_crossed_1) = [(5, 0)] \<and>
   ranges (st_of run_crossed_3) = [(1, 7), (1, 7), (8, 8)] \<and>
   \<not> r_max (stack (st_of run_crossed_3) ! 0) < r_min (stack (st_of run_crossed_3) ! 1) \<and>
   succeeded (open_dir dir_unordered) \<and>
   ranges (st_of (open_dir dir_unordered)) = [(2, 2), (1, 1)] \<and>
   \<not> r_max (stack (st_of (open_dir dir_unordered)) ! 0)
       < r_min (stack (st_of (open_dir dir_unordered)) ! 1) \<and>
   succeeded (open_dir dir_misnamed) \<and>
   ranges (st_of (open_dir dir_misnamed)) = [(1, 1)] \<and>
   succeeded run_misnamed_1 \<and> succeeded run_misnamed_2 \<and>
   ranges (st_of run_misnamed_1) = [(1, 1), (2, 2)] \<and>
   ranges (st_of run_misnamed_2) = [(2, 2), (2, 2), (3, 3)] \<and>
   \<not> r_max (stack (st_of run_misnamed_2) ! 0) < r_min (stack (st_of run_misnamed_2) ! 1)"
  by code_simp

end
